theory Spec2Isabelle
  imports Main
begin

section \<open>The \<open>create\<close> command of the JBrowse command line\<close>

text \<open>
  Source: \<^verbatim>\<open>packages/jbrowse-cli/src/commands/create.ts\<close>.

  The command talks to the file system and to the network. Both are made explicit:
  the state of the target directory is a value that \<open>run\<close> receives and returns, every
  network request is appended to a log, and what the network answers is a parameter.
  A call of \<^verbatim>\<open>this.error\<close> ends the command; it is the \<open>Inl\<close> branch of a sum.
\<close>

subsection \<open>Data\<close>

text \<open>
  \<^verbatim>\<open>interface GithubRelease { tag_name; prerelease; assets: [{ browser_download_url }] }\<close>.
  An asset is represented by its \<^verbatim>\<open>browser_download_url\<close>.
\<close>

record GithubRelease =
  tag_name :: string
  prerelease :: bool
  assets :: "string list"

text \<open>
  What ends the command early.
  \<^item> \<open>CLIError (Some n) msg\<close>: \<^verbatim>\<open>this.error(msg, { exit: n })\<close>;
  \<^item> \<open>CLIError None msg\<close>: \<^verbatim>\<open>this.error(msg)\<close>, no exit code given at the call;
  \<^item> \<open>Rethrown e\<close>: \<^verbatim>\<open>this.error(error)\<close> in a \<^verbatim>\<open>catch\<close> block, again with no
    exit code given at the call;
  \<^item> \<open>ExitCalled\<close>: \<^verbatim>\<open>this.exit()\<close>;
  \<^item> \<open>UncaughtTypeError\<close>: reading a property of \<^verbatim>\<open>undefined\<close>;
  \<^item> \<open>SystemError\<close>: a rejected promise of \<^verbatim>\<open>fs\<close> or \<^verbatim>\<open>fetch\<close>.
\<close>

datatype failure =
    CLIError "nat option" string
  | Rethrown failure
  | ExitCalled
  | UncaughtTypeError
  | SystemError

text \<open>The answer of \<^verbatim>\<open>fetch\<close>: the promise rejects, or there is a response.\<close>

datatype 'b response =
    Rejected
  | Response (ok: bool) (content_type: "string option") (body: 'b)

text \<open>The target path on disk, as far as the command looks at it.\<close>

datatype node =
    Absent
  | RegularFile
  | Directory (readable: bool) (entries: "string list")

text \<open>An entry of the downloaded archive: its path and whether its type is \<^verbatim>\<open>'File'\<close>.\<close>

record zip_entry =
  entry_path :: string
  is_file :: bool

record world =
  target :: node
  requests :: "string list"
  printed :: "string list"

text \<open>The surroundings: what each URL answers, and whether a missing directory can be made.\<close>

record env =
  releases_reply :: "GithubRelease list response"
  download_reply :: "string \<Rightarrow> zip_entry list response"
  mkdir_allowed :: bool

record run_flags =
  force :: bool
  url :: "string option"
  listVersions :: bool
  tag :: "string option"

definition releases_url :: string where
  "releases_url = ''https://api.github.com/repos/GMOD/jbrowse-components/releases''"

text \<open>JavaScript truthiness of an optional string: \<^verbatim>\<open>undefined\<close> and \<^verbatim>\<open>''\<close> are falsy.\<close>

fun truthy_str :: "string option \<Rightarrow> bool" where
  "truthy_str None = False"
| "truthy_str (Some s) = (s \<noteq> [])"

subsection \<open>\<^verbatim>\<open>fetchGithubVersions\<close>\<close>

text \<open>\<^verbatim>\<open>String.prototype.startsWith\<close>.\<close>

definition startsWith :: "string \<Rightarrow> string \<Rightarrow> bool" where
  "startsWith s p = (take (length p) s = p)"

text \<open>The part of \<^verbatim>\<open>fetchGithubVersions\<close> after the response has been parsed.\<close>

definition select_versions :: "GithubRelease list \<Rightarrow> GithubRelease list" where
  "select_versions jb2releases =
     (let versions = filter (\<lambda>release. startsWith (tag_name release) ''@gmod/jbrowse-web'') jb2releases;
          nonprereleases = filter (\<lambda>release. prerelease release = False) versions
      in if length nonprereleases = 0 then jb2releases else nonprereleases)"

definition fetchGithubVersions :: "env \<Rightarrow> world \<Rightarrow> (failure + GithubRelease list) \<times> world" where
  "fetchGithubVersions e w =
     (let w1 = w\<lparr>requests := requests w @ [releases_url]\<rparr>
      in case releases_reply e of
           Rejected \<Rightarrow> (Inl SystemError, w1)
         | Response okay ct jb2releases \<Rightarrow>
             if \<not> okay then (Inl (CLIError None ''Failed to fetch version from server''), w1)
             else (Inr (select_versions jb2releases), w1))"

subsection \<open>\<^verbatim>\<open>getTagOrLatest\<close>\<close>

text \<open>\<^verbatim>\<open>Array.prototype.find\<close>: the first element that satisfies the test.\<close>

fun find_first :: "('a \<Rightarrow> bool) \<Rightarrow> 'a list \<Rightarrow> 'a option" where
  "find_first p [] = None"
| "find_first p (x # xs) = (if p x then Some x else find_first p xs)"

text \<open>\<^verbatim>\<open>response[0]\<close>: \<^verbatim>\<open>undefined\<close> on an empty array.\<close>

fun first_elem :: "'a list \<Rightarrow> 'a option" where
  "first_elem [] = None"
| "first_elem (x # xs) = Some x"

text \<open>
  The choice of the release and of its URL, once the list is there.
  \<^verbatim>\<open>versions.assets[0].browser_download_url\<close> throws a TypeError when the release has
  no asset.
\<close>

definition pick_release :: "string option \<Rightarrow> GithubRelease list \<Rightarrow> failure + string" where
  "pick_release tg resp =
     (let versions = (if truthy_str tg
                      then find_first (\<lambda>version. Some (tag_name version) = tg) resp
                      else first_elem resp)
      in case versions of
           Some v \<Rightarrow> (case assets v of [] \<Rightarrow> Inl UncaughtTypeError | u # _ \<Rightarrow> Inr u)
         | None \<Rightarrow> Inl (CLIError (Some 40)
             ''Could not find version specified. Use --listVersions to see all available versions''))"

definition getTagOrLatest :: "env \<Rightarrow> string option \<Rightarrow> world \<Rightarrow> (failure + string) \<times> world" where
  "getTagOrLatest e tg w =
     (case fetchGithubVersions e w of
        (Inl err, w1) \<Rightarrow> (Inl err, w1)
      | (Inr resp, w1) \<Rightarrow> (pick_release tg resp, w1))"

subsection \<open>\<^verbatim>\<open>checkPath\<close>\<close>

text \<open>\<^verbatim>\<open>fsPromises.readdir\<close>: the names in a readable directory, a rejection otherwise.\<close>

fun readdir :: "node \<Rightarrow> string list option" where
  "readdir (Directory True es) = Some es"
| "readdir _ = None"

definition checkPath :: "string \<Rightarrow> world \<Rightarrow> (failure + unit) \<times> world" where
  "checkPath userPath w =
     (case readdir (target w) of
        None \<Rightarrow> (Inl (CLIError (Some 20) ''Directory does not exist''), w)
      | Some allFiles \<Rightarrow>
          if length allFiles > 0
          then (Inl (CLIError (Some 10) (userPath @
            '' This directory has existing files and could cause conflicts with create. Please choose another directory or use the force flag to overwrite existing files'')), w)
          else (Inr (), w))"

subsection \<open>\<^verbatim>\<open>run\<close>\<close>

text \<open>
  \<^verbatim>\<open>fsPromises.mkdir(path, { recursive: true })\<close>: nothing happens to a directory that
  exists, a missing one is made (empty) when the surroundings allow it, and a regular
  file in the way is a rejection.
\<close>

definition mkdir_recursive :: "env \<Rightarrow> node \<Rightarrow> node option" where
  "mkdir_recursive e n =
     (case n of
        Directory r es \<Rightarrow> Some (Directory r es)
      | Absent \<Rightarrow> (if mkdir_allowed e then Some (Directory True []) else None)
      | RegularFile \<Rightarrow> None)"

text \<open>
  The \<^verbatim>\<open>'entry'\<close> handler of the unzip stream. An entry of type \<^verbatim>\<open>'File'\<close> is written
  to \<^verbatim>\<open>path.join(argsPath, fileName)\<close>, after \<^verbatim>\<open>mkdir\<close> of the directory of that path; any
  other entry is drained. What appears in the target directory is the first segment of
  \<open>fileName\<close>, a file or a directory, once. The names of the entries are relative paths
  with \<^verbatim>\<open>/\<close> between the segments and no segment \<^verbatim>\<open>.\<close> or \<^verbatim>\<open>..\<close>.
\<close>

definition top_name :: "string \<Rightarrow> string" where
  "top_name fileName = takeWhile (\<lambda>c. c \<noteq> CHR ''/'') fileName"

definition add_name :: "string \<Rightarrow> node \<Rightarrow> node" where
  "add_name name n =
     (case n of
        Directory r es \<Rightarrow> Directory r (if name \<in> set es then es else es @ [name])
      | other \<Rightarrow> other)"

fun write_entries :: "zip_entry list \<Rightarrow> node \<Rightarrow> node" where
  "write_entries [] n = n"
| "write_entries (z # zs) n =
     (if is_file z
      then write_entries zs (add_name (top_name (entry_path z)) n)
      else write_entries zs n)"

definition join_comma :: "string list \<Rightarrow> string" where
  "join_comma xs = concat (case xs of [] \<Rightarrow> [] | y # ys \<Rightarrow> y # map (\<lambda>s. '', '' @ s) ys)"

text \<open>The block guarded by \<^verbatim>\<open>if (listVersions)\<close>: it always leaves the command.\<close>

definition list_versions :: "env \<Rightarrow> world \<Rightarrow> failure \<times> world" where
  "list_versions e w =
     (case fetchGithubVersions e w of
        (Inl err, w1) \<Rightarrow> (Rethrown err, w1)
      | (Inr vs, w1) \<Rightarrow>
          (Rethrown ExitCalled,
           w1\<lparr>printed := printed w1 @ [''All JBrowse versions: '' @ join_comma (map tag_name vs)]\<rparr>))"

text \<open>
  The download and what follows it (lines 88 to 132 of the source). The body of the
  response is the list of the entries of the archive; an archive that cannot be parsed
  (the \<^verbatim>\<open>'error'\<close> handler of the stream) is outside the model.
\<close>

definition download :: "env \<Rightarrow> run_flags \<Rightarrow> string \<Rightarrow> string \<Rightarrow> world \<Rightarrow> (failure + unit) \<times> world" where
  "download e fl argsPath locationUrl w =
     (let w1 = w\<lparr>requests := requests w @ [locationUrl]\<rparr>
      in case download_reply e locationUrl of
           Rejected \<Rightarrow> (Inl (Rethrown SystemError), w1)
         | Response okay ct zs \<Rightarrow>
             if \<not> okay
             then (Inl (CLIError (Some 50) ''Failed to fetch JBrowse2 from server''), w1)
             else if truthy_str (url fl) \<and> ct \<noteq> Some ''application/zip''
                     \<and> ct \<noteq> Some ''application/octet-stream''
             then (Inl (CLIError None
                      ''The URL provided does not seem to be a JBrowse installation URL''), w1)
             else (Inr (),
                   w1\<lparr>target := write_entries zs (target w1),
                      printed := printed w1 @
                        [''Your JBrowse 2 setup has been created at '' @ argsPath]\<rparr>))"

text \<open>Line 84: \<^verbatim>\<open>if (!force) await this.checkPath(argsPath)\<close>.\<close>

definition validate :: "run_flags \<Rightarrow> string \<Rightarrow> world \<Rightarrow> (failure + unit) \<times> world" where
  "validate fl argsPath w = (if \<not> force fl then checkPath argsPath w else (Inr (), w))"

text \<open>Line 86: \<^verbatim>\<open>const locationUrl = url || (await this.getTagOrLatest(tag))\<close>.\<close>

definition resolve_url :: "env \<Rightarrow> run_flags \<Rightarrow> world \<Rightarrow> (failure + string) \<times> world" where
  "resolve_url e fl w =
     (case url fl of
        Some u \<Rightarrow> (if u \<noteq> [] then (Inr u, w) else getTagOrLatest e (tag fl) w)
      | None \<Rightarrow> getTagOrLatest e (tag fl) w)"

definition run :: "env \<Rightarrow> run_flags \<Rightarrow> string \<Rightarrow> world \<Rightarrow> (failure + unit) \<times> world" where
  "run e fl argsPath w =
     (if listVersions fl then (Inl (fst (list_versions e w)), snd (list_versions e w))
      else (case mkdir_recursive e (target w) of
        None \<Rightarrow> (Inl (Rethrown SystemError), w)
      | Some n \<Rightarrow>
         (case validate fl argsPath (w\<lparr>target := n\<rparr>) of
            (Inl err, w2) \<Rightarrow> (Inl err, w2)
          | (Inr u, w2) \<Rightarrow>
             (case resolve_url e fl w2 of
                (Inl err, w3) \<Rightarrow> (Inl err, w3)
              | (Inr locationUrl, w3) \<Rightarrow> download e fl argsPath locationUrl w3))))"

subsection \<open>A sample run\<close>

text \<open>
  A listing with a prerelease, a release of the web application and a release of another
  package; \<open>u1\<close> answers with an archive, \<open>u9\<close> with a web page and every other URL
  with an error status.
\<close>

definition rel1 :: GithubRelease where
  "rel1 = \<lparr>tag_name = ''@gmod/jbrowse-web@v0.0.1'', prerelease = False, assets = [''u1'', ''u2'']\<rparr>"

definition env1 :: env where
  "env1 = \<lparr>releases_reply = Response True (Some ''application/json'')
      [\<lparr>tag_name = ''@gmod/jbrowse-web@v0.0.2'', prerelease = True, assets = [''u3'']\<rparr>,
       \<lparr>tag_name = ''@gmod/jbrowse-web@v0.0.1'', prerelease = False, assets = [''u1'', ''u2'']\<rparr>,
       \<lparr>tag_name = ''@gmod/jbrowse-cli@v0.0.1'', prerelease = False, assets = [''u4'']\<rparr>],
     download_reply = (\<lambda>u.
        if u = ''u1''
        then Response True (Some ''application/zip'')
          [\<lparr>entry_path = ''index.html'', is_file = True\<rparr>,
           \<lparr>entry_path = ''static/js/main.js'', is_file = True\<rparr>,
           \<lparr>entry_path = ''static/css/main.css'', is_file = True\<rparr>]
        else if u = ''u9'' then Response True (Some ''text/html'') []
        else Response False None []),
     mkdir_allowed = True\<rparr>"

definition world1 :: world where
  "world1 = \<lparr>target = Directory True [], requests = [], printed = []\<rparr>"

definition flags0 :: run_flags where
  "flags0 = \<lparr>force = False, url = None, listVersions = False, tag = None\<rparr>"


section \<open>The object utilities\<close>

text \<open>
  Source: the utility module with \<^verbatim>\<open>deepUpdate\<close>, \<^verbatim>\<open>fillTemplate\<close>, \<^verbatim>\<open>clone\<close> and
  \<^verbatim>\<open>mixin\<close>.
\<close>

subsection \<open>JavaScript values as trees\<close>

text \<open>
  \<^verbatim>\<open>deepUpdate\<close> and \<^verbatim>\<open>fillTemplate\<close> work on configuration records: trees of
  primitive values, functions and records. A record is the list of its own enumerable
  properties in the order of \<^verbatim>\<open>Object.keys\<close>; a well-formed record has each key once. A
  function is known by a number; what it does when called is a parameter.

  \<^verbatim>\<open>typeof\<close> answers \<^verbatim>\<open>'object'\<close> for a record and for \<^verbatim>\<open>null\<close>. The datatype
  follows it: \<open>Object None\<close> is \<^verbatim>\<open>null\<close> and \<open>Object (Some ps)\<close> is the record with the
  properties \<open>ps\<close>.

  Every record is a plain object: its prototype is \<^verbatim>\<open>Object.prototype\<close>, as it is for an
  object literal and for what \<^verbatim>\<open>JSON.parse\<close> gives. The members of \<^verbatim>\<open>Object.prototype\<close> are
  seen by \<^verbatim>\<open>in\<close> and by a read, see \<open>prop_in\<close>, \<open>typeof_at\<close>, \<open>undefined_at\<close> and
  \<open>assign\<close> below.

  Outside the model: arrays and other exotic objects, getters and setters of a record's
  own, frozen objects, objects with another prototype, two references to one object (a
  value is a tree), numbers that are not integers.
\<close>

datatype jsval =
    Undefined
  | Bool bool
  | Num int
  | Str string
  | Fn nat
  | Object (the_object: "(string \<times> jsval) list option")

type_synonym props = "(string \<times> jsval) list"

abbreviation Null :: jsval where
  "Null \<equiv> Object None"

abbreviation Obj :: "props \<Rightarrow> jsval" where
  "Obj ps \<equiv> Object (Some ps)"

datatype exn = TypeError | Thrown string

fun typeof :: "jsval \<Rightarrow> string" where
  "typeof Undefined = ''undefined''"
| "typeof (Bool b) = ''boolean''"
| "typeof (Num n) = ''number''"
| "typeof (Str s) = ''string''"
| "typeof (Fn f) = ''function''"
| "typeof (Object x) = ''object''"

text \<open>JavaScript truthiness.\<close>

fun truthy :: "jsval \<Rightarrow> bool" where
  "truthy Undefined = False"
| "truthy (Bool b) = b"
| "truthy (Num n) = (n \<noteq> 0)"
| "truthy (Str s) = (s \<noteq> [])"
| "truthy (Fn f) = True"
| "truthy (Object x) = (x \<noteq> None)"

text \<open>
  The own properties of a record: \<^verbatim>\<open>Object.keys(o)\<close>, whether \<open>k\<close> is an own key, and the
  value of an own key (\<^verbatim>\<open>undefined\<close> when \<open>k\<close> is no own key).
\<close>

definition keys :: "props \<Rightarrow> string list" where
  "keys ps = map fst ps"

definition has_key :: "props \<Rightarrow> string \<Rightarrow> bool" where
  "has_key ps k = (k \<in> set (map fst ps))"

definition get :: "props \<Rightarrow> string \<Rightarrow> jsval" where
  "get ps k = (case map_of ps k of None \<Rightarrow> Undefined | Some v \<Rightarrow> v)"

text \<open>
  The order of \<^verbatim>\<open>Object.keys\<close>: the keys that are array indices come first, in ascending
  order, then the other keys in the order of their creation. An array index is the decimal
  numeral, with no leading zero, of a number up to \<open>2\<^sup>3\<^sup>2 - 2\<close>.
\<close>

definition is_digit :: "char \<Rightarrow> bool" where
  "is_digit c = (48 \<le> (of_char c :: nat) \<and> (of_char c :: nat) \<le> 57)"

definition index_value :: "string \<Rightarrow> nat" where
  "index_value k = foldl (\<lambda>n c. 10 * n + (of_char c - 48)) 0 k"

definition is_index :: "string \<Rightarrow> bool" where
  "is_index k = (k \<noteq> [] \<and> list_all is_digit k \<and> (hd k \<noteq> CHR ''0'' \<or> length k = 1)
     \<and> index_value k < 4294967295)"

text \<open>The value of an own key is replaced where it stands.\<close>

fun replace_value :: "(string \<times> 'v) list \<Rightarrow> string \<Rightarrow> 'v \<Rightarrow> (string \<times> 'v) list" where
  "replace_value [] k v = []"
| "replace_value ((k', v') # ps) k v =
     (if k' = k then (k, v) # ps else (k', v') # replace_value ps k v)"

text \<open>A new array index goes after the array indices below it.\<close>

fun insert_index :: "(string \<times> 'v) list \<Rightarrow> string \<Rightarrow> 'v \<Rightarrow> (string \<times> 'v) list" where
  "insert_index [] k v = [(k, v)]"
| "insert_index ((k', v') # ps) k v =
     (if is_index k' \<and> index_value k' < index_value k
      then (k', v') # insert_index ps k v
      else (k, v) # (k', v') # ps)"

text \<open>
  \<open>put\<close> writes the own data property \<open>k\<close>: the value of an own key is replaced, a new key
  is created at its place in the order of \<^verbatim>\<open>Object.keys\<close>.
\<close>

definition put :: "props \<Rightarrow> string \<Rightarrow> jsval \<Rightarrow> props" where
  "put ps k v =
     (if has_key ps k then replace_value ps k v
      else if is_index k then insert_index ps k v
      else ps @ [(k, v)])"

text \<open>
  The properties of \<^verbatim>\<open>Object.prototype\<close>: these function-valued members, and the accessor
  \<^verbatim>\<open>__proto__\<close>, whose getter answers the prototype of the object, here \<^verbatim>\<open>Object.prototype\<close>
  itself.
\<close>

definition prototype_members :: "string list" where
  "prototype_members =
     [''constructor'', ''hasOwnProperty'', ''isPrototypeOf'', ''propertyIsEnumerable'',
      ''toLocaleString'', ''toString'', ''valueOf'', ''__defineGetter__'', ''__defineSetter__'',
      ''__lookupGetter__'', ''__lookupSetter__'']"

text \<open>\<^verbatim>\<open>k in o\<close>: an own key or a property of \<^verbatim>\<open>Object.prototype\<close>.\<close>

definition prop_in :: "props \<Rightarrow> string \<Rightarrow> bool" where
  "prop_in ps k = (has_key ps k \<or> k = ''__proto__'' \<or> k \<in> set prototype_members)"

text \<open>
  \<^verbatim>\<open>typeof o[k]\<close>: of the own value when \<open>k\<close> is an own key; otherwise \<^verbatim>\<open>o.__proto__\<close> is the
  object \<^verbatim>\<open>Object.prototype\<close>, a member of \<^verbatim>\<open>Object.prototype\<close> is a function, and any other
  key reads as \<^verbatim>\<open>undefined\<close>.
\<close>

definition typeof_at :: "props \<Rightarrow> string \<Rightarrow> string" where
  "typeof_at ps k =
     (if has_key ps k then typeof (get ps k)
      else if k = ''__proto__'' then ''object''
      else if k \<in> set prototype_members then ''function''
      else ''undefined'')"

text \<open>\<^verbatim>\<open>o[k] === undefined\<close>.\<close>

definition undefined_at :: "props \<Rightarrow> string \<Rightarrow> bool" where
  "undefined_at ps k =
     (if has_key ps k then get ps k = Undefined
      else k \<noteq> ''__proto__'' \<and> k \<notin> set prototype_members)"

text \<open>
  \<^verbatim>\<open>o[k] = v\<close>. An own key is written. The key \<^verbatim>\<open>__proto__\<close>, when it is no own key, goes to
  the setter of \<^verbatim>\<open>Object.prototype\<close>, which does nothing for a primitive value \<open>v\<close>; for a
  function it makes \<open>v\<close> the prototype of \<open>o\<close>, which no record of this model can show (the
  model leaves \<open>o\<close> as it is; \<open>proto_safe\<close> below rules the case out). Any other key becomes
  an own key; a member of \<^verbatim>\<open>Object.prototype\<close> is a writable data property, which an own
  property shadows.
\<close>

definition assign :: "props \<Rightarrow> string \<Rightarrow> jsval \<Rightarrow> props" where
  "assign ps k v = (if \<not> has_key ps k \<and> k = ''__proto__'' then ps else put ps k v)"

subsection \<open>\<^verbatim>\<open>deepUpdate\<close>\<close>

text \<open>
  Both arguments of a call are object-typed: the signature asks for records, and the
  recursive call is made only when \<^verbatim>\<open>typeof\<close> answers \<^verbatim>\<open>'object'\<close> for both values. So
  an argument is \<^verbatim>\<open>null\<close> (\<open>None\<close>) or a record (\<open>Some ps\<close>).

  The function updates \<open>a\<close> in place. The model returns the updated \<open>a\<close>; when the call
  throws, the \<open>Inl\<close> branch carries the exception and \<open>a\<close> as the call left it. The
  recursive call changes the object \<^verbatim>\<open>a[prop]\<close> in place; in a tree that is the changed
  object written back under \<open>prop\<close>. The loop runs over \<^verbatim>\<open>Object.keys(b)\<close>, so \<^verbatim>\<open>b[prop]\<close>
  reads an own key of \<open>b\<close>.

  \<^item> \<^verbatim>\<open>Object.keys(null)\<close> throws a TypeError;
  \<^item> \<^verbatim>\<open>prop in null\<close> throws a TypeError, so a \<^verbatim>\<open>null\<close> for \<open>a\<close> survives only a
    \<open>b\<close> with no key;
  \<^item> when the first test holds and \<open>prop\<close> is no own key of \<open>a\<close>, then \<open>prop\<close> is
    \<^verbatim>\<open>__proto__\<close> and \<^verbatim>\<open>a[prop]\<close> is \<^verbatim>\<open>Object.prototype\<close>: the recursive call throws on a
    \<^verbatim>\<open>null\<close> and does nothing on a record with no key. On a record with a key it writes
    to \<^verbatim>\<open>Object.prototype\<close>, which changes every object of the program and which no
    record of this model can show (the model leaves \<open>a\<close> as it is; \<open>proto_safe\<close> below
    rules the case out).
\<close>

lemma size_map_of_less:
  "map_of ps k = Some v \<Longrightarrow> size v < size_list (size_prod (\<lambda>x. 0) size) ps"
  by (induction ps) (auto split: if_splits)

function deepUpdate :: "props option \<Rightarrow> props option \<Rightarrow> (exn \<times> props option) + props option"
  and deepUpdate_loop :: "props option \<Rightarrow> props \<Rightarrow> string list \<Rightarrow> (exn \<times> props option) + props option"
where
  "deepUpdate a None = Inl (TypeError, a)"
| "deepUpdate a (Some b) = deepUpdate_loop a b (keys b)"
| "deepUpdate_loop a b [] = Inr a"
| "deepUpdate_loop None b (prop # rest) = Inl (TypeError, None)"
| "deepUpdate_loop (Some a) b (prop # rest) =
     (if prop_in a prop \<and> typeof (get b prop) = ''object'' \<and> typeof_at a prop = ''object''
      then (if has_key a prop
            then (case deepUpdate (the_object (get a prop)) (the_object (get b prop)) of
                    Inl (err, a') \<Rightarrow> Inl (err, Some (put a prop (Object a')))
                  | Inr a' \<Rightarrow> deepUpdate_loop (Some (put a prop (Object a'))) b rest)
            else (case the_object (get b prop) of
                    None \<Rightarrow> Inl (TypeError, Some a)
                  | Some ps \<Rightarrow> deepUpdate_loop (Some a) b rest))
      else if undefined_at a prop \<or> get b prop \<noteq> Undefined
      then deepUpdate_loop (Some (assign a prop (get b prop))) b rest
      else deepUpdate_loop (Some a) b rest)"
  by pat_completeness auto
termination
proof (relation "inv_image (less_than <*lex*> less_than)
       (\<lambda>x. case x of
          Inl (a, b) \<Rightarrow> (size_option (size_list (size_prod (\<lambda>x. 0) size)) b + 1, 0)
        | Inr (a, b, ks) \<Rightarrow> (size_list (size_prod (\<lambda>x. 0) size) b, length ks + 1))",
    goal_cases)
  case (3 a b k rest)
  then obtain x where x: "get b k = Object x" by (cases "get b k") simp_all
  then have "map_of b k = Some (Object x)"
    by (simp add: get_def split: option.splits)
  from size_map_of_less [OF this] x show ?case by simp
qed auto





text \<open>Two configuration records with overlapping nested keys.\<close>

definition conf_a :: props where
  "conf_a = [(''name'', Str ''track''), (''style'', Obj [(''color'', Str ''red''), (''height'', Num 10)]),
             (''keep'', Num 1)]"




subsection \<open>\<^verbatim>\<open>fillTemplate\<close>\<close>

text \<open>
  A string is a list of code units below 256. The classes of the regular expression
  \<^verbatim>\<open>/{([\s\w.]+)}/g\<close> on these code units: \<^verbatim>\<open>\s\<close> is tab, line feed, vertical tab, form
  feed, carriage return, space and the no-break space; \<^verbatim>\<open>\w\<close> is a letter, a digit or the
  underscore.
\<close>

definition is_space :: "char \<Rightarrow> bool" where
  "is_space c = (of_char c \<in> {9, 10, 11, 12, 13, 32, 160 :: nat})"

definition is_word :: "char \<Rightarrow> bool" where
  "is_word c = (let n = of_char c :: nat in
     (48 \<le> n \<and> n \<le> 57) \<or> (65 \<le> n \<and> n \<le> 90) \<or> (97 \<le> n \<and> n \<le> 122) \<or> n = 95)"

definition in_class :: "char \<Rightarrow> bool" where
  "in_class c = (is_space c \<or> is_word c \<or> c = CHR ''.'')"

text \<open>\<^verbatim>\<open>varName.replace(/\s+/g, '')\<close>.\<close>

definition strip_space :: "string \<Rightarrow> string" where
  "strip_space s = filter (\<lambda>c. \<not> is_space c) s"

text \<open>
  What the function does not define itself is a parameter:
  \<^item> \<open>getValue\<close>, the dotted-path lookup of the package \<^verbatim>\<open>get-value\<close>;
  \<^item> \<open>call f args\<close>, what the function value \<open>Fn f\<close> returns or throws on \<open>args\<close>;
  \<^item> \<open>to_string\<close>, the conversion of a number, a function or a record to a string, which
    \<^verbatim>\<open>String.prototype.replace\<close> applies to what the replacer returns.
\<close>

record host =
  getValue :: "props \<Rightarrow> string \<Rightarrow> jsval"
  call :: "nat \<Rightarrow> jsval list \<Rightarrow> exn + jsval"
  to_string :: "jsval \<Rightarrow> exn + string"

definition ToString :: "host \<Rightarrow> jsval \<Rightarrow> exn + string" where
  "ToString h v =
     (case v of
        Str s \<Rightarrow> Inr s
      | Undefined \<Rightarrow> Inr ''undefined''
      | Bool b \<Rightarrow> Inr (if b then ''true'' else ''false'')
      | Object None \<Rightarrow> Inr ''null''
      | _ \<Rightarrow> to_string h v)"

text \<open>
  Every call of a function value is logged with the place that made it: \<open>FillCall\<close> is
  \<^verbatim>\<open>fill(varName)\<close>, \<open>CallbackCall\<close> is \<^verbatim>\<open>fillWith.callback.call(this, varName)\<close>.
\<close>

datatype call_site = FillCall | CallbackCall

type_synonym call_log = "(call_site \<times> nat \<times> jsval list) list"

type_synonym filled = "(exn + string) \<times> call_log"

text \<open>
  \<^verbatim>\<open>fillWith.callback.call(this, varName)\<close> for a truthy \<^verbatim>\<open>fillWith.callback\<close>. A function
  is called on \<open>varName\<close>. A record has no method \<^verbatim>\<open>call\<close> unless it has the key; then its
  value is called on \<^verbatim>\<open>this\<close> (\<^verbatim>\<open>undefined\<close> in a module) and \<open>varName\<close>. Anything else is
  a TypeError.
\<close>

definition callback_call :: "host \<Rightarrow> jsval \<Rightarrow> string \<Rightarrow> (exn + jsval) \<times> call_log" where
  "callback_call h cb varName =
     (case cb of
        Fn f \<Rightarrow> (call h f [Str varName], [(CallbackCall, f, [Str varName])])
      | Object (Some ps) \<Rightarrow>
          (case get ps ''call'' of
             Fn g \<Rightarrow> (call h g [Undefined, Str varName],
                       [(CallbackCall, g, [Undefined, Str varName])])
           | _ \<Rightarrow> (Inl TypeError, []))
      | _ \<Rightarrow> (Inl TypeError, []))"

text \<open>The replacer function, lines 44 to 61; its result goes through \<open>ToString\<close>.\<close>

definition replacer :: "host \<Rightarrow> props \<Rightarrow> string \<Rightarrow> string \<Rightarrow> filled" where
  "replacer h fillWith match varName0 =
     (let varName = strip_space varName0;
          fill = getValue h fillWith varName
      in if fill \<noteq> Undefined
         then (if typeof fill = ''function''
               then (case call h (un_Fn fill) [Str varName] of
                       Inl e \<Rightarrow> Inl e
                     | Inr v \<Rightarrow> ToString h v,
                     [(FillCall, un_Fn fill, [Str varName])])
               else (ToString h fill, []))
         else if truthy (get fillWith ''callback'')
         then (case callback_call h (get fillWith ''callback'') varName of
                 (Inl e, l) \<Rightarrow> (Inl e, l)
               | (Inr v, l) \<Rightarrow> (if v \<noteq> Undefined then ToString h v else Inr match, l))
         else (Inr match, []))"

text \<open>
  A match of \<^verbatim>\<open>{([\s\w.]+)}\<close> right after an opening brace: the longest run of class
  characters, not empty, followed by a closing brace. The result is the captured run and
  the text after the closing brace.
\<close>

definition match_at :: "string \<Rightarrow> (string \<times> string) option" where
  "match_at cs =
     (let name = takeWhile in_class cs; rest = dropWhile in_class cs
      in if name \<noteq> [] \<and> rest \<noteq> [] \<and> hd rest = CHR ''}'' then Some (name, tl rest) else None)"

text \<open>One piece of output after another: the first exception ends the replacement.\<close>

definition followed_by :: "filled \<Rightarrow> filled \<Rightarrow> filled" where
  "followed_by x y =
     (case x of
        (Inl e, l) \<Rightarrow> (Inl e, l)
      | (Inr s, l) \<Rightarrow> (case fst y of Inl e \<Rightarrow> Inl e | Inr t \<Rightarrow> Inr (s @ t), l @ snd y))"

lemma match_at_shorter: "match_at cs = Some (name, rest) \<Longrightarrow> length rest < length cs"
proof -
  assume "match_at cs = Some (name, rest)"
  then have "rest = tl (dropWhile in_class cs)" "dropWhile in_class cs \<noteq> []"
    by (auto simp: match_at_def Let_def split: if_splits)
  moreover have "length (dropWhile in_class cs) \<le> length cs" by (rule length_dropWhile_le)
  ultimately show ?thesis by (cases "dropWhile in_class cs") auto
qed

text \<open>
  \<^verbatim>\<open>template.replace(regex, replacer)\<close> with a global regular expression: the template is
  scanned from left to right, a match is replaced and the scan goes on after it, any other
  character is copied.
\<close>

function fillTemplate_from :: "host \<Rightarrow> props \<Rightarrow> string \<Rightarrow> filled" where
  "fillTemplate_from h fillWith [] = (Inr [], [])"
| "fillTemplate_from h fillWith (c # cs) =
     (if c = CHR ''{''
      then (case match_at cs of
              Some (name, rest) \<Rightarrow>
                followed_by (replacer h fillWith (c # name @ ''}'') name)
                  (fillTemplate_from h fillWith rest)
            | None \<Rightarrow> followed_by (Inr [c], []) (fillTemplate_from h fillWith cs))
      else followed_by (Inr [c], []) (fillTemplate_from h fillWith cs))"
  by pat_completeness auto
termination
  by (relation "measure (\<lambda>(h, fillWith, t). length t)") (auto dest: match_at_shorter)

definition fillTemplate :: "host \<Rightarrow> string \<Rightarrow> props \<Rightarrow> filled" where
  "fillTemplate h template fillWith = fillTemplate_from h fillWith template"

text \<open>The names captured by the matches of a template, from left to right.\<close>

function placeholders :: "string \<Rightarrow> string list" where
  "placeholders [] = []"
| "placeholders (c # cs) =
     (if c = CHR ''{''
      then (case match_at cs of
              Some (name, rest) \<Rightarrow> name # placeholders rest
            | None \<Rightarrow> placeholders cs)
      else placeholders cs)"
  by pat_completeness auto
termination
  by (relation "measure length") (auto dest: match_at_shorter)

text \<open>
  The calls that claim C3, read with the code, names for one placeholder when
  \<^verbatim>\<open>fillWith.callback\<close> is the function \<open>f\<close>: one call of \<open>f\<close> through \<^verbatim>\<open>fillWith.callback.call\<close> when the lookup of
  the name gives \<^verbatim>\<open>undefined\<close>; one call of the value found, through \<^verbatim>\<open>fill(varName)\<close>, when
  the lookup gives a function; no call otherwise. This definition follows the words of the
  claim; the theorem compares it with the log of \<open>fillTemplate\<close>.
\<close>

definition expected_calls :: "host \<Rightarrow> props \<Rightarrow> nat \<Rightarrow> string \<Rightarrow> call_log" where
  "expected_calls h fw f name =
     (case getValue h fw (strip_space name) of
        Undefined \<Rightarrow> [(CallbackCall, f, [Str (strip_space name)])]
      | Fn g \<Rightarrow> [(FillCall, g, [Str (strip_space name)])]
      | _ \<Rightarrow> [])"

text \<open>
  A placeholder stays unresolved when its lookup gives \<^verbatim>\<open>undefined\<close> and either
  \<^verbatim>\<open>fillWith.callback\<close> is falsy or it is a function that returns \<^verbatim>\<open>undefined\<close> for the
  name.
\<close>

definition unresolved :: "host \<Rightarrow> props \<Rightarrow> string \<Rightarrow> bool" where
  "unresolved h fw name =
     (getValue h fw (strip_space name) = Undefined \<and>
      (\<not> truthy (get fw ''callback'') \<or>
       (\<exists>f. get fw ''callback'' = Fn f \<and> call h f [Str (strip_space name)] = Inr Undefined)))"

text \<open>
  A lookup for the samples: the value of a key without a dot, \<^verbatim>\<open>undefined\<close> for any
  other name. Function 0 answers \<^verbatim>\<open>undefined\<close> for the name \<open>skip\<close> and the upper-cased
  word \<open>FALLBACK\<close> for any other argument.
\<close>

definition host1 :: host where
  "host1 = \<lparr>getValue = (\<lambda>ps k. if CHR ''.'' \<in> set k then Undefined else get ps k),
            call = (\<lambda>f args. if args = [Str ''skip''] then Inr Undefined else Inr (Str ''FALLBACK'')),
            to_string = (\<lambda>v. Inr ''?'')\<rparr>"

definition fill1 :: props where
  "fill1 = [(''bar'', Str ''someurl''), (''callback'', Fn 0)]"


subsection \<open>\<^verbatim>\<open>clone\<close> and \<^verbatim>\<open>mixin\<close>\<close>

text \<open>
  \<^verbatim>\<open>clone\<close> is about the identity of objects and about cycles, so its values live in a
  store: a value is a primitive, a function or a reference to an object of the store.
  An object is a \<^verbatim>\<open>Date\<close> with its time value, a \<^verbatim>\<open>RegExp\<close> with its source and
  flags, an array with its elements (\<open>None\<close> is a hole) or a record with its own
  enumerable properties, each key once. The store is the list of the objects made so far;
  \<^verbatim>\<open>new\<close> appends to it, and the address of an object is its position.

  A record is a plain object: its prototype is \<^verbatim>\<open>Object.prototype\<close>, whose members \<^verbatim>\<open>in\<close>
  and a read see. \<open>VBuiltin n\<close> is the function that \<^verbatim>\<open>Object.prototype\<close> has under the name
  \<open>n\<close>; \<open>VBuiltin ''constructor''\<close> is \<^verbatim>\<open>Object\<close>.

  Outside the model: named properties of arrays, dates and regular expressions, the
  \<^verbatim>\<open>lastIndex\<close> of a regular expression, instances of classes as input (of the object that
  \<^verbatim>\<open>new src.constructor()\<close> makes the model keeps the own properties), getters and setters
  other than \<^verbatim>\<open>__proto__\<close>, numbers that are not integers.
\<close>

datatype val =
    VUndefined
  | VNull
  | VBool bool
  | VNum int
  | VStr string
  | VFn nat
  | VBuiltin string
  | Ref nat

datatype hobj =
    Date int
  | RegExp string string
  | Array "val option list"
  | Plain "(string \<times> val) list"

type_synonym store = "hobj list"

fun truthy_val :: "val \<Rightarrow> bool" where
  "truthy_val VUndefined = False"
| "truthy_val VNull = False"
| "truthy_val (VBool b) = b"
| "truthy_val (VNum n) = (n \<noteq> 0)"
| "truthy_val (VStr s) = (s \<noteq> [])"
| "truthy_val (VFn f) = True"
| "truthy_val (VBuiltin n) = True"
| "truthy_val (Ref a) = True"

text \<open>
  The own properties of a record: whether \<open>k\<close> is an own key, the value of an own key
  (\<^verbatim>\<open>undefined\<close> when \<open>k\<close> is no own key), and the write of an own data property, which
  replaces the value of an own key and makes a new key at its place in the order of
  \<^verbatim>\<open>Object.keys\<close>.
\<close>

definition own_has :: "(string \<times> val) list \<Rightarrow> string \<Rightarrow> bool" where
  "own_has ps k = (k \<in> set (map fst ps))"

definition own_get :: "(string \<times> val) list \<Rightarrow> string \<Rightarrow> val" where
  "own_get ps k = (case map_of ps k of None \<Rightarrow> VUndefined | Some v \<Rightarrow> v)"

definition own_set :: "(string \<times> val) list \<Rightarrow> string \<Rightarrow> val \<Rightarrow> (string \<times> val) list" where
  "own_set ps k v =
     (if own_has ps k then replace_value ps k v
      else if is_index k then insert_index ps k v
      else ps @ [(k, v)])"

text \<open>
  An object is seen through its own properties \<open>own\<close> and the properties \<open>inh\<close> that it
  inherits; the accessor \<^verbatim>\<open>__proto__\<close> of \<^verbatim>\<open>Object.prototype\<close> is kept apart. What an empty
  record \<^verbatim>\<open>{}\<close> inherits is the members of \<^verbatim>\<open>Object.prototype\<close>.
\<close>

definition object_prototype :: "(string \<times> val) list" where
  "object_prototype = map (\<lambda>n. (n, VBuiltin n)) prototype_members"

text \<open>\<^verbatim>\<open>name in o\<close>.\<close>

definition has_prop :: "(string \<times> val) list \<Rightarrow> (string \<times> val) list \<Rightarrow> string \<Rightarrow> bool" where
  "has_prop inh own name = (own_has own name \<or> name = ''__proto__'' \<or> own_has inh name)"

text \<open>
  \<^verbatim>\<open>o[name] !== x\<close>. The value of \<^verbatim>\<open>o.__proto__\<close>, when it is no own key, is the prototype
  of \<open>o\<close>, which is no object of the store: it differs from every \<open>x\<close>.
\<close>

definition differs_at :: "(string \<times> val) list \<Rightarrow> (string \<times> val) list \<Rightarrow> string \<Rightarrow> val \<Rightarrow> bool" where
  "differs_at inh own name x =
     (if own_has own name then own_get own name \<noteq> x
      else if name = ''__proto__'' then True
      else own_get inh name \<noteq> x)"

text \<open>
  \<^verbatim>\<open>o[name] = v\<close>. An own key is written, and a key that is inherited as a data property
  becomes an own key. The key \<^verbatim>\<open>__proto__\<close>, when it is no own key, goes to the setter of
  \<^verbatim>\<open>Object.prototype\<close>: it does nothing for a primitive \<open>v\<close> other than \<^verbatim>\<open>null\<close>; for an
  object, a function or \<^verbatim>\<open>null\<close> it changes the prototype of \<open>o\<close>, which the model does not
  show. In both cases \<open>o\<close> gets no own key.
\<close>

definition assign_prop :: "(string \<times> val) list \<Rightarrow> string \<Rightarrow> val \<Rightarrow> (string \<times> val) list" where
  "assign_prop own name v =
     (if \<not> own_has own name \<and> name = ''__proto__'' then own else own_set own name v)"

text \<open>
  What the surroundings supply: \<open>construct f\<close> is the object that \<^verbatim>\<open>new f()\<close> makes, as its
  own properties and the properties it inherits (those of \<^verbatim>\<open>f.prototype\<close> and of
  \<^verbatim>\<open>Object.prototype\<close>, taken as data properties), or what it throws; \<open>cloneNode f o\<close> is
  the object that the method \<open>f\<close> returns for \<^verbatim>\<open>o.cloneNode(true)\<close>, or what it throws.
\<close>

record dom =
  construct :: "nat \<Rightarrow> exn + (string \<times> val) list \<times> (string \<times> val) list"
  cloneNode :: "nat \<Rightarrow> hobj \<Rightarrow> exn + hobj"

text \<open>
  Line 80, \<^verbatim>\<open>src.nodeType && 'cloneNode' in src\<close>: of the objects of the model only a
  record can have the two properties, and \<^verbatim>\<open>Object.prototype\<close> has neither.
\<close>

definition node_like :: "hobj \<Rightarrow> bool" where
  "node_like obj =
     (case obj of
        Plain ps \<Rightarrow> truthy_val (own_get ps ''nodeType'') \<and> own_has ps ''cloneNode''
      | _ \<Rightarrow> False)"

text \<open>
  Line 109, \<^verbatim>\<open>src.constructor ? new src.constructor() : {}\<close>, as the own and the inherited
  properties of the new object. A record without an own key \<^verbatim>\<open>constructor\<close> inherits
  \<^verbatim>\<open>Object\<close>, and \<^verbatim>\<open>new Object()\<close> is an empty record. A truthy value that is no function
  is not a constructor, and neither is another member of \<^verbatim>\<open>Object.prototype\<close>: a
  TypeError.
\<close>

definition new_like :: "dom \<Rightarrow> (string \<times> val) list
    \<Rightarrow> exn + (string \<times> val) list \<times> (string \<times> val) list" where
  "new_like h ps =
     (let c = (if own_has ps ''constructor'' then own_get ps ''constructor''
               else VBuiltin ''constructor'')
      in if truthy_val c
         then (case c of
                 VFn f \<Rightarrow> construct h f
               | VBuiltin n \<Rightarrow> (if n = ''constructor'' then Inr ([], object_prototype)
                                else Inl TypeError)
               | _ \<Rightarrow> Inl TypeError)
         else Inr ([], object_prototype))"

text \<open>
  The result of a call: \<open>None\<close> when the depth allowed for nested calls was not enough
  (see \<open>clone\<close> below), \<open>Some (Inl e)\<close> for an exception, \<open>Some (Inr (v, s))\<close> for the
  value returned and the store after the call.
\<close>

type_synonym 'a outcome = "(exn + 'a \<times> store) option"

type_synonym copier = "store \<Rightarrow> val \<Rightarrow> val outcome"

text \<open>
  The loop of lines 98 to 102, with \<open>copy\<close> for the recursive \<^verbatim>\<open>clone\<close>. The array \<open>r\<close>
  starts empty and \<^verbatim>\<open>r[i] = clone(src[i])\<close> is done for the indices present in \<open>src\<close>:
  \<open>r\<close> ends at the last index assigned, and an index skipped before it is a hole.
\<close>

fun clone_elems :: "copier \<Rightarrow> store \<Rightarrow> val option list \<Rightarrow> val option list outcome" where
  "clone_elems copy s [] = Some (Inr ([], s))"
| "clone_elems copy s (None # es) =
     (case clone_elems copy s es of
        None \<Rightarrow> None
      | Some (Inl e) \<Rightarrow> Some (Inl e)
      | Some (Inr (r, s1)) \<Rightarrow> Some (Inr (if r = [] then [] else None # r, s1)))"
| "clone_elems copy s (Some x # es) =
     (case copy s x of
        None \<Rightarrow> None
      | Some (Inl e) \<Rightarrow> Some (Inl e)
      | Some (Inr (v, s1)) \<Rightarrow>
          (case clone_elems copy s1 es of
             None \<Rightarrow> None
           | Some (Inl e) \<Rightarrow> Some (Inl e)
           | Some (Inr (r, s2)) \<Rightarrow> Some (Inr (Some v # r, s2))))"

text \<open>
  \<^verbatim>\<open>mixin(dest, source, copyFunc)\<close> for an array \<open>source\<close>: the names of the
  \<^verbatim>\<open>for\<close>-\<^verbatim>\<open>in\<close> loop are the indices present in \<open>source\<close>, and the two lists are walked
  index by index. No name is in the empty record \<^verbatim>\<open>empty\<close>, so the test of lines 142 to
  144 is \<^verbatim>\<open>!(name in dest) || dest[name] !== s\<close>.
\<close>

fun mixin_elems :: "copier \<Rightarrow> store \<Rightarrow> val option list \<Rightarrow> val option list \<Rightarrow> val option list outcome" where
  "mixin_elems copy s dest [] = Some (Inr (dest, s))"
| "mixin_elems copy s dest (None # es) =
     (case mixin_elems copy s (tl dest) es of
        None \<Rightarrow> None
      | Some (Inl e) \<Rightarrow> Some (Inl e)
      | Some (Inr (r, s1)) \<Rightarrow>
          Some (Inr (if dest = [] then (if r = [] then [] else None # r) else hd dest # r, s1)))"
| "mixin_elems copy s dest (Some x # es) =
     (if dest = [] \<or> hd dest = None \<or> hd dest \<noteq> Some x
      then (case copy s x of
              None \<Rightarrow> None
            | Some (Inl e) \<Rightarrow> Some (Inl e)
            | Some (Inr (v, s1)) \<Rightarrow>
                (case mixin_elems copy s1 (tl dest) es of
                   None \<Rightarrow> None
                 | Some (Inl e) \<Rightarrow> Some (Inl e)
                 | Some (Inr (r, s2)) \<Rightarrow> Some (Inr (Some v # r, s2))))
      else (case mixin_elems copy s (tl dest) es of
              None \<Rightarrow> None
            | Some (Inl e) \<Rightarrow> Some (Inl e)
            | Some (Inr (r, s1)) \<Rightarrow> Some (Inr (hd dest # r, s1))))"

text \<open>
  The test of lines 142 to 144, for \<open>dest\<close> with the inherited properties \<open>inh\<close>:
  \<^verbatim>\<open>!(name in dest) || (dest[name] !== s && (!(name in empty) || empty[name] !== s))\<close>,
  where \<^verbatim>\<open>empty\<close> is an empty record.
\<close>

definition must_copy :: "(string \<times> val) list \<Rightarrow> (string \<times> val) list \<Rightarrow> string \<Rightarrow> val \<Rightarrow> bool" where
  "must_copy inh dest name x =
     (\<not> has_prop inh dest name \<or>
      (differs_at inh dest name x \<and>
       (\<not> has_prop object_prototype [] name \<or> differs_at object_prototype [] name x)))"

text \<open>
  \<^verbatim>\<open>mixin(dest, source, copyFunc)\<close> for a record \<open>source\<close>: the names of the
  \<^verbatim>\<open>for\<close>-\<^verbatim>\<open>in\<close> loop are the own keys of \<open>source\<close>, since no member of \<^verbatim>\<open>Object.prototype\<close> is
  enumerable.
\<close>

fun mixin_props :: "copier \<Rightarrow> store \<Rightarrow> (string \<times> val) list \<Rightarrow> (string \<times> val) list
    \<Rightarrow> (string \<times> val) list \<Rightarrow> (string \<times> val) list outcome" where
  "mixin_props copy s inh dest [] = Some (Inr (dest, s))"
| "mixin_props copy s inh dest ((name, x) # rest) =
     (if must_copy inh dest name x
      then (case copy s x of
              None \<Rightarrow> None
            | Some (Inl e) \<Rightarrow> Some (Inl e)
            | Some (Inr (v, s1)) \<Rightarrow> mixin_props copy s1 inh (assign_prop dest name v) rest)
      else mixin_props copy s inh dest rest)"

text \<open>
  The body of \<^verbatim>\<open>clone\<close> for a reference to the object at address \<open>a\<close>, lines 80 to 111.
  The new object is appended to the store when it is complete; nothing else refers to it
  before. A reference to no object of the store cannot be made by a program; the model
  answers \<open>Thrown\<close> for it. A member of \<^verbatim>\<open>Object.prototype\<close> under the key \<^verbatim>\<open>cloneNode\<close> of
  a record that passes the test of line 80 would be called; what it answers is no new
  object, and the model, which has a TypeError there, does not show it.
\<close>

definition clone_object :: "dom \<Rightarrow> copier \<Rightarrow> store \<Rightarrow> nat \<Rightarrow> val outcome" where
  "clone_object h copy s a =
     (if length s \<le> a then Some (Inl (Thrown ''no such object''))
      else if node_like (s ! a)
      then (case own_get (case s ! a of Plain ps \<Rightarrow> ps | _ \<Rightarrow> []) ''cloneNode'' of
              VFn f \<Rightarrow>
                (case cloneNode h f (s ! a) of
                   Inl e \<Rightarrow> Some (Inl e)
                 | Inr node \<Rightarrow> Some (Inr (Ref (length s), s @ [node])))
            | _ \<Rightarrow> Some (Inl TypeError))
      else (case s ! a of
              Date t \<Rightarrow> Some (Inr (Ref (length s), s @ [Date t]))
            | RegExp source flags \<Rightarrow> Some (Inr (Ref (length s), s @ [RegExp source flags]))
            | Array es \<Rightarrow>
                (case clone_elems copy s es of
                   None \<Rightarrow> None
                 | Some (Inl e) \<Rightarrow> Some (Inl e)
                 | Some (Inr (r, s1)) \<Rightarrow>
                     (case mixin_elems copy s1 r es of
                        None \<Rightarrow> None
                      | Some (Inl e) \<Rightarrow> Some (Inl e)
                      | Some (Inr (r', s2)) \<Rightarrow> Some (Inr (Ref (length s2), s2 @ [Array r']))))
            | Plain ps \<Rightarrow>
                (case new_like h ps of
                   Inl e \<Rightarrow> Some (Inl e)
                 | Inr (r, inh) \<Rightarrow>
                     (case mixin_props copy s inh r ps of
                        None \<Rightarrow> None
                      | Some (Inl e) \<Rightarrow> Some (Inl e)
                      | Some (Inr (r', s1)) \<Rightarrow> Some (Inr (Ref (length s1), s1 @ [Plain r']))))))"

text \<open>
  The recursion of \<^verbatim>\<open>clone\<close> has no bound of its own, so the model counts the depth of
  the calls: \<open>clone h n\<close> may nest \<open>n\<close> calls, and the result \<open>None\<close> says that this was
  not enough. Lines 72 to 79: \<^verbatim>\<open>null\<close>, \<^verbatim>\<open>undefined\<close>, any value that is no object and any
  function is returned as it is.
\<close>

fun clone :: "dom \<Rightarrow> nat \<Rightarrow> store \<Rightarrow> val \<Rightarrow> val outcome" where
  "clone h 0 s src = None"
| "clone h (Suc n) s src =
     (case src of
        Ref a \<Rightarrow> clone_object h (clone h n) s a
      | _ \<Rightarrow> Some (Inr (src, s)))"


text \<open>
  The unfolding of a value of the store into a tree, to a depth of \<open>d\<close> nested objects.
  Every object of the tree carries its address. The unfolding exists exactly when every
  reference met is to an object of the store and no chain of references from the value
  is longer than \<open>d\<close>; a value on a cycle has no unfolding at any depth.
\<close>

datatype tree =
    Leaf val
  | DateT nat int
  | RegExpT nat string string
  | ArrayT nat "tree option list"
  | PlainT nat "(string \<times> tree) list"

fun reify :: "nat \<Rightarrow> store \<Rightarrow> val \<Rightarrow> tree option" where
  "reify 0 s (Ref a) = None"
| "reify (Suc d) s (Ref a) =
     (if length s \<le> a then None
      else (case s ! a of
              Date t \<Rightarrow> Some (DateT a t)
            | RegExp source flags \<Rightarrow> Some (RegExpT a source flags)
            | Array es \<Rightarrow>
                map_option (ArrayT a)
                  (those (map (\<lambda>e. case e of None \<Rightarrow> Some None
                                     | Some v \<Rightarrow> map_option Some (reify d s v)) es))
            | Plain ps \<Rightarrow>
                map_option (PlainT a)
                  (those (map (\<lambda>(k, v). map_option (Pair k) (reify d s v)) ps))))"
| "reify d s v = Some (Leaf v)"

text \<open>A tree without its addresses: two values are structurally equal when these agree.\<close>

primrec shape :: "tree \<Rightarrow> tree" where
  "shape (Leaf v) = Leaf v"
| "shape (DateT a t) = DateT 0 t"
| "shape (RegExpT a source flags) = RegExpT 0 source flags"
| "shape (ArrayT a ts) = ArrayT 0 (map (map_option shape) ts)"
| "shape (PlainT a kts) = PlainT 0 (map (map_prod id shape) kts)"

text \<open>The addresses of the objects of a tree.\<close>

primrec addrs :: "tree \<Rightarrow> nat set" where
  "addrs (Leaf v) = {}"
| "addrs (DateT a t) = {a}"
| "addrs (RegExpT a source flags) = {a}"
| "addrs (ArrayT a ts) = insert a (\<Union> (set (map (\<lambda>x. \<Union> (set_option x)) (map (map_option addrs) ts))))"
| "addrs (PlainT a kts) = insert a (\<Union> (set (map snd (map (map_prod id addrs) kts))))"

text \<open>The truthiness of the value a tree unfolds: an object is truthy.\<close>

definition truthy_tree :: "tree \<Rightarrow> bool" where
  "truthy_tree t = (case t of Leaf v \<Rightarrow> truthy_val v | _ \<Rightarrow> True)"

text \<open>
  The keys of a record are in the order of \<^verbatim>\<open>Object.keys\<close>: a key that is an array index
  comes after array indices below it only.
\<close>

definition key_order :: "string list \<Rightarrow> bool" where
  "key_order ks =
     sorted_wrt (\<lambda>k k'. \<not> is_index k' \<or> is_index k \<and> index_value k < index_value k') ks"

text \<open>
  The values \<^verbatim>\<open>clone\<close> copies by the generic path. In every record each key is there
  once and the keys are in the order of \<^verbatim>\<open>Object.keys\<close>; no record passes the test for a
  DOM node (a truthy \<^verbatim>\<open>nodeType\<close> and a key \<^verbatim>\<open>cloneNode\<close>); no record has a truthy own
  \<^verbatim>\<open>constructor\<close>, an own key \<^verbatim>\<open>__proto__\<close>, or a member of \<^verbatim>\<open>Object.prototype\<close> under
  that member's name; and no array ends in a hole.
\<close>

definition plain_record :: "(string \<times> tree) list \<Rightarrow> bool" where
  "plain_record kts =
     (distinct (map fst kts) \<and> key_order (map fst kts)
      \<and> \<not> ((case map_of kts ''nodeType'' of None \<Rightarrow> False | Some t \<Rightarrow> truthy_tree t)
            \<and> ''cloneNode'' \<in> set (map fst kts))
      \<and> \<not> (case map_of kts ''constructor'' of None \<Rightarrow> False | Some t \<Rightarrow> truthy_tree t)
      \<and> ''__proto__'' \<notin> set (map fst kts)
      \<and> list_all (\<lambda>kt. snd kt \<noteq> Leaf (VBuiltin (fst kt))) kts)"

primrec cloneable :: "tree \<Rightarrow> bool" where
  "cloneable (Leaf v) = True"
| "cloneable (DateT a t) = True"
| "cloneable (RegExpT a source flags) = True"
| "cloneable (ArrayT a ts) =
     ((ts = [] \<or> last ts \<noteq> None) \<and> list_all (\<lambda>x. case x of None \<Rightarrow> True | Some b \<Rightarrow> b) (map (map_option cloneable) ts))"
| "cloneable (PlainT a kts) =
     (plain_record kts \<and> list_all (\<lambda>b. b) (map snd (map (map_prod id cloneable) kts)))"

text \<open>
  A copy function returns at depth \<open>d\<close>: on every value that has an unfolding of depth
  \<open>d\<close> it ends, with an exception or with a value and a store that extends the one it
  got.
\<close>

definition returns :: "copier \<Rightarrow> nat \<Rightarrow> bool" where
  "returns copy d =
     (\<forall>s v t. reify d s v = Some t \<longrightarrow>
        (\<exists>res. copy s v = Some res \<and> (\<forall>r s'. res = Inr (r, s') \<longrightarrow> (\<exists>hs. s' = s @ hs))))"

text \<open>One copy function gives every result that another gives.\<close>

definition agrees :: "copier \<Rightarrow> copier \<Rightarrow> bool" where
  "agrees c c' = (\<forall>s v res. c s v = Some res \<longrightarrow> c' s v = Some res)"

text \<open>
  A copy function copies at depth \<open>d\<close>: on a value with a cloneable unfolding \<open>t\<close> of
  depth \<open>d\<close> it returns a value and an extended store, the value returned unfolds there
  to a tree of the shape of \<open>t\<close>, every object of that tree is new, and a value that is
  no reference is returned as it is, with the store as it was.
\<close>

definition copies :: "copier \<Rightarrow> nat \<Rightarrow> bool" where
  "copies copy d =
     (\<forall>s v t. reify d s v = Some t \<and> cloneable t \<longrightarrow>
        (\<exists>r s' t'. copy s v = Some (Inr (r, s')) \<and> (\<exists>hs. s' = s @ hs)
           \<and> reify d s' r = Some t' \<and> shape t' = shape t
           \<and> (\<forall>a \<in> addrs t'. length s \<le> a)
           \<and> ((\<forall>a. v \<noteq> Ref a) \<longrightarrow> r = v \<and> s' = s)))"

text \<open>
  The relations between the lists that the loops walk. \<open>elem_ok\<close> and \<open>prop_ok\<close>: a source
  element, or property, unfolds to a cloneable tree. \<open>elem_copied\<close>: after the first
  loop over an array a hole is a hole, a primitive is itself and a reference is another
  reference. \<open>elem_like\<close> and \<open>prop_like\<close>: the copied element, or property, unfolds to
  a tree of the shape of the source's, made of objects from address \<open>L\<close> on.
\<close>

definition elem_ok :: "nat \<Rightarrow> store \<Rightarrow> val option \<Rightarrow> tree option \<Rightarrow> bool" where
  "elem_ok d s e u =
     (case e of None \<Rightarrow> u = None
      | Some x \<Rightarrow> (\<exists>t. u = Some t \<and> reify d s x = Some t \<and> cloneable t))"

definition elem_copied :: "val option \<Rightarrow> val option \<Rightarrow> bool" where
  "elem_copied e v =
     (case e of None \<Rightarrow> v = None
      | Some x \<Rightarrow> (\<exists>y. v = Some y \<and> ((\<exists>a. x = Ref a) \<longrightarrow> y \<noteq> x) \<and> ((\<forall>a. x \<noteq> Ref a) \<longrightarrow> y = x)))"

definition elem_like :: "nat \<Rightarrow> store \<Rightarrow> nat \<Rightarrow> val option \<Rightarrow> tree option \<Rightarrow> bool" where
  "elem_like d s L v u =
     (case u of None \<Rightarrow> v = None
      | Some t \<Rightarrow> (\<exists>y t'. v = Some y \<and> reify d s y = Some t' \<and> shape t' = shape t
                     \<and> (\<forall>a \<in> addrs t'. L \<le> a)))"

definition prop_ok :: "nat \<Rightarrow> store \<Rightarrow> string \<times> val \<Rightarrow> string \<times> tree \<Rightarrow> bool" where
  "prop_ok d s p kt = (fst kt = fst p \<and> reify d s (snd p) = Some (snd kt) \<and> cloneable (snd kt))"

definition prop_like :: "nat \<Rightarrow> store \<Rightarrow> nat \<Rightarrow> string \<times> val \<Rightarrow> string \<times> tree \<Rightarrow> bool" where
  "prop_like d s L q kt =
     (fst q = fst kt \<and> (\<exists>t'. reify d s (snd q) = Some t' \<and> shape t' = shape (snd kt)
        \<and> (\<forall>a \<in> addrs t'. L \<le> a)))"

text \<open>
  A host whose constructors make empty objects: \<^verbatim>\<open>new f()\<close> has no own property, and it
  inherits \<^verbatim>\<open>constructor\<close> with the value \<open>f\<close> and the other members of \<^verbatim>\<open>Object.prototype\<close>.
  Its \<^verbatim>\<open>cloneNode\<close> answers the node itself.
\<close>

definition dom0 :: dom where
  "dom0 = \<lparr>construct = (\<lambda>f. Inr ([], (''constructor'', VFn f) # tl object_prototype)),
           cloneNode = (\<lambda>f obj. Inr obj)\<rparr>"

text \<open>A store with a record, a date, an array with a hole and a regular expression.\<close>

definition store1 :: store where
  "store1 = [Plain [(''a'', VNum 1), (''d'', Ref 1), (''xs'', Ref 2)], Date 5,
             Array [Some (Ref 3), None, Some (VStr ''s'')], RegExp ''a+'' ''g'']"

text \<open>A record that refers to itself.\<close>

definition cyclic_store :: store where
  "cyclic_store = [Plain [(''self'', Ref 0)]]"

text \<open>A host whose \<^verbatim>\<open>cloneNode\<close> answers a node with the property \<^verbatim>\<open>nodeType\<close> alone.\<close>

definition dom1 :: dom where
  "dom1 = \<lparr>construct = (\<lambda>f. Inr ([], (''constructor'', VFn f) # tl object_prototype)),
           cloneNode = (\<lambda>f obj. Inr (Plain [(''nodeType'', VNum 1)]))\<rparr>"

section \<open>Properties of the \<open>create\<close> command\<close>

lemma env1_listing: "fst (fetchGithubVersions env1 world1) = Inr [rel1]"
  by (simp add: fetchGithubVersions_def env1_def select_versions_def startsWith_def rel1_def)

lemma filter_startsWith_nonpre:
  "filter (\<lambda>release. prerelease release = False)
     (filter (\<lambda>release. startsWith (tag_name release) p) rs)
   = filter (\<lambda>r. \<not> prerelease r \<and> startsWith (tag_name r) p) rs"
  by (induction rs) auto

lemma if_filter_nil:
  "(if filter P xs = [] then xs else filter P xs) = (if \<exists>x \<in> set xs. P x then filter P xs else xs)"
  by (auto simp: filter_empty_conv)

text \<open>
  Claim C10. \<^verbatim>\<open>fetchGithubVersions\<close> returns exactly the releases that are not
  prereleases and whose tag starts with \<^verbatim>\<open>@gmod/jbrowse-web\<close>, in the order of the
  listing, whenever there is at least one of them; when there is none it returns the
  whole listing unfiltered, prereleases and foreign tags included.
\<close>

theorem fetchGithubVersions_selection:
  "fst (fetchGithubVersions e w) =
     (case releases_reply e of
        Rejected \<Rightarrow> Inl SystemError
      | Response okay ct rs \<Rightarrow>
          if \<not> okay then Inl (CLIError None ''Failed to fetch version from server'')
          else if \<exists>r \<in> set rs. \<not> prerelease r \<and> startsWith (tag_name r) ''@gmod/jbrowse-web''
          then Inr (filter (\<lambda>r. \<not> prerelease r \<and> startsWith (tag_name r) ''@gmod/jbrowse-web'') rs)
          else Inr rs)"
proof (cases "releases_reply e")
  case Rejected
  then show ?thesis by (simp add: fetchGithubVersions_def)
next
  case (Response okay ct rs)
  let ?P = "\<lambda>r. \<not> prerelease r \<and> startsWith (tag_name r) ''@gmod/jbrowse-web''"
  have sel: "select_versions rs = (if filter ?P rs = [] then rs else filter ?P rs)"
    unfolding select_versions_def Let_def filter_startsWith_nonpre by simp
  have "select_versions rs = (if \<exists>r \<in> set rs. ?P r then filter ?P rs else rs)"
    unfolding sel by (rule if_filter_nil)
  with Response show ?thesis by (auto simp: fetchGithubVersions_def)
qed

theorem fetchGithubVersions_selection_witness:
  "fst (fetchGithubVersions env1 world1) = Inr [rel1]
   \<and> fst (fetchGithubVersions (env1\<lparr>releases_reply := Response True None
        [\<lparr>tag_name = ''@gmod/jbrowse-web@v0.0.2'', prerelease = True, assets = [''u3'']\<rparr>,
         \<lparr>tag_name = ''@gmod/jbrowse-cli@v0.0.1'', prerelease = False, assets = [''u4'']\<rparr>]\<rparr>) world1)
     = Inr [\<lparr>tag_name = ''@gmod/jbrowse-web@v0.0.2'', prerelease = True, assets = [''u3'']\<rparr>,
         \<lparr>tag_name = ''@gmod/jbrowse-cli@v0.0.1'', prerelease = False, assets = [''u4'']\<rparr>]"
  using fetchGithubVersions_selection [of env1 world1]
    fetchGithubVersions_selection [of "env1\<lparr>releases_reply := Response True None
        [\<lparr>tag_name = ''@gmod/jbrowse-web@v0.0.2'', prerelease = True, assets = [''u3'']\<rparr>,
         \<lparr>tag_name = ''@gmod/jbrowse-cli@v0.0.1'', prerelease = False, assets = [''u4'']\<rparr>]\<rparr>" world1]
  by (simp add: env1_def rel1_def startsWith_def)

lemma find_first_None: "(find_first p xs = None) = (\<not> (\<exists>x \<in> set xs. p x))"
  by (induction xs) auto

lemma find_first_Some: "find_first p xs = Some x \<Longrightarrow> x \<in> set xs \<and> p x"
  by (induction xs) (auto split: if_splits)

text \<open>
  Claim C7. Let the release listing have been fetched, and let \<open>resp\<close> be what
  \<^verbatim>\<open>fetchGithubVersions\<close> returned. With a tag supplied, the command ends with exit code
  40 when no release of \<open>resp\<close> carries exactly that tag, and otherwise the URL is the
  \<^verbatim>\<open>browser_download_url\<close> of the first asset of the first release with that tag. With
  no tag, the URL is that of the first asset of the first listed release.
\<close>

theorem getTagOrLatest_resolution:
  assumes listing: "fst (fetchGithubVersions e w) = Inr resp"
  shows "(t \<noteq> [] \<and> \<not> (\<exists>r \<in> set resp. tag_name r = t) \<longrightarrow>
            fst (getTagOrLatest e (Some t) w) = Inl (CLIError (Some 40)
              ''Could not find version specified. Use --listVersions to see all available versions''))
       \<and> (t \<noteq> [] \<and> find_first (\<lambda>r. tag_name r = t) resp = Some r \<and> assets r = u # us \<longrightarrow>
            fst (getTagOrLatest e (Some t) w) = Inr u)
       \<and> (resp = r # rest \<and> assets r = u # us \<longrightarrow> fst (getTagOrLatest e None w) = Inr u)"
proof -
  obtain w1 where f: "fetchGithubVersions e w = (Inr resp, w1)"
    using listing by (cases "fetchGithubVersions e w") simp
  have g: "fst (getTagOrLatest e tg w) = pick_release tg resp" for tg
    by (simp add: getTagOrLatest_def f)
  have a: "fst (getTagOrLatest e (Some t) w) = Inl (CLIError (Some 40)
              ''Could not find version specified. Use --listVersions to see all available versions'')"
    if "t \<noteq> []" "\<not> (\<exists>r \<in> set resp. tag_name r = t)"
  proof -
    from that(2) have "find_first (\<lambda>r. tag_name r = t) resp = None"
      by (simp add: find_first_None)
    with that(1) show ?thesis by (simp add: g pick_release_def)
  qed
  have b: "fst (getTagOrLatest e (Some t) w) = Inr u"
    if "t \<noteq> []" "find_first (\<lambda>r. tag_name r = t) resp = Some r" "assets r = u # us"
    using that by (simp add: g pick_release_def)
  have c: "fst (getTagOrLatest e None w) = Inr u" if "resp = r # rest" "assets r = u # us"
    using that by (simp add: g pick_release_def)
  from a b c show ?thesis by blast
qed

theorem getTagOrLatest_resolution_witness:
  "fst (getTagOrLatest env1 (Some ''@gmod/jbrowse-web@v0.0.2'') world1) = Inl (CLIError (Some 40)
      ''Could not find version specified. Use --listVersions to see all available versions'')
   \<and> fst (getTagOrLatest env1 (Some ''@gmod/jbrowse-web@v0.0.1'') world1) = Inr ''u1''
   \<and> fst (getTagOrLatest env1 None world1) = Inr ''u1''"
  using getTagOrLatest_resolution [OF env1_listing, of "''@gmod/jbrowse-web@v0.0.2''" rel1 "''u1''" "[''u2'']" "[]"]
    getTagOrLatest_resolution [OF env1_listing, of "''@gmod/jbrowse-web@v0.0.1''" rel1 "''u1''" "[''u2'']" "[]"]
  by (simp add: rel1_def)

lemma validate_empty: "\<not> force fl \<Longrightarrow> target w = Directory True [] \<Longrightarrow> validate fl p w = (Inr (), w)"
  by (simp add: validate_def checkPath_def)

lemma resolve_url_requests:
  "resolve_url e fl w = (r, w') \<Longrightarrow>
     \<exists>rs. requests w' = requests w @ rs \<and> target w' = target w
       \<and> (\<forall>c msg. r = Inl (CLIError (Some c) msg) \<longrightarrow> c = 40)"
  by (auto simp: resolve_url_def getTagOrLatest_def fetchGithubVersions_def pick_release_def Let_def
      split: option.splits if_splits response.splits list.splits)

lemma download_requests:
  "download e fl p loc w = (r, w') \<Longrightarrow>
     requests w' = requests w @ [loc]
       \<and> (\<forall>c msg. r = Inl (CLIError (Some c) msg) \<longrightarrow> c = 50)"
  by (auto simp: download_def Let_def split: response.splits if_splits)

lemma resolve_url_failure_requests:
  "resolve_url e fl w = (Inl err, w') \<Longrightarrow> requests w' = requests w @ [releases_url]"
  by (auto simp: resolve_url_def getTagOrLatest_def fetchGithubVersions_def Let_def
      split: option.splits if_splits response.splits)

lemma run_on_empty_directory:
  assumes "\<not> force fl" "\<not> listVersions fl" "target w = Directory True []"
  shows "(\<exists>rs. rs \<noteq> [] \<and> requests (snd (run e fl p w)) = requests w @ rs)
    \<and> (\<forall>c msg. fst (run e fl p w) = Inl (CLIError (Some c) msg) \<longrightarrow> c \<noteq> 20 \<and> c \<noteq> 10)"
proof -
  have w: "w\<lparr>target := Directory True []\<rparr> = w" using assms(3) by simp
  have start: "run e fl p w =
      (case resolve_url e fl w of
         (Inl err, w3) \<Rightarrow> (Inl err, w3)
       | (Inr locationUrl, w3) \<Rightarrow> download e fl p locationUrl w3)"
    using assms by (simp add: run_def mkdir_recursive_def w validate_empty)
  obtain r w3 where r: "resolve_url e fl w = (r, w3)" by (cases "resolve_url e fl w")
  note rr = resolve_url_requests [OF r]
  show ?thesis
  proof (cases r)
    case (Inl err)
    with r have "requests w3 = requests w @ [releases_url]"
      by (auto dest: resolve_url_failure_requests)
    moreover from rr Inl have "\<forall>c msg. err = CLIError (Some c) msg \<longrightarrow> c = 40" by simp
    ultimately show ?thesis using start r Inl by auto
  next
    case (Inr loc)
    obtain r2 w4 where d: "download e fl p loc w3 = (r2, w4)" by (cases "download e fl p loc w3")
    note dr = download_requests [OF d]
    from rr obtain rs where "requests w3 = requests w @ rs" by blast
    with dr have "requests w4 = requests w @ (rs @ [loc])" by simp
    moreover from dr have "\<forall>c msg. r2 = Inl (CLIError (Some c) msg) \<longrightarrow> c = 50" by simp
    ultimately show ?thesis using start r Inr d by auto
  qed
qed

text \<open>
  Claim C6, as the code has it. Without the force flag (and without the flag to list the
  versions) the command first calls \<^verbatim>\<open>mkdir\<close> with \<^verbatim>\<open>recursive\<close>. A target directory that
  is missing is made, and the run is the run on an empty directory: a request goes to the
  network and the exit code is neither 20 nor 10. Path validation then ends the command
  with exit code 20 when the directory is there and cannot be read, and with exit code 10
  when it can be read and has at least one entry; in both cases the world is returned as
  it was, with no request added and the directory unchanged. When \<^verbatim>\<open>mkdir\<close> fails the
  command ends before path validation, with no exit code given and the world unchanged.
\<close>

theorem run_path_validation:
  assumes "\<not> force fl" "\<not> listVersions fl"
  shows "(target w = Absent \<and> mkdir_allowed e \<longrightarrow>
            run e fl p w = run e fl p (w\<lparr>target := Directory True []\<rparr>))
    \<and> (target w = Directory True [] \<longrightarrow>
          (\<exists>rs. rs \<noteq> [] \<and> requests (snd (run e fl p w)) = requests w @ rs)
          \<and> (\<forall>c msg. fst (run e fl p w) = Inl (CLIError (Some c) msg) \<longrightarrow> c \<noteq> 20 \<and> c \<noteq> 10))
    \<and> (\<forall>es. target w = Directory False es \<longrightarrow>
          run e fl p w = (Inl (CLIError (Some 20) ''Directory does not exist''), w))
    \<and> (\<forall>x xs. target w = Directory True (x # xs) \<longrightarrow>
          (\<exists>msg. run e fl p w = (Inl (CLIError (Some 10) msg), w)))
    \<and> (target w = RegularFile \<or> (target w = Absent \<and> \<not> mkdir_allowed e) \<longrightarrow>
          run e fl p w = (Inl (Rethrown SystemError), w))"
proof -
  have absent: "run e fl p w = run e fl p (w\<lparr>target := Directory True []\<rparr>)"
    if "target w = Absent \<and> mkdir_allowed e"
    using that assms by (simp add: run_def mkdir_recursive_def)
  have unreadable: "run e fl p w = (Inl (CLIError (Some 20) ''Directory does not exist''), w)"
    if t: "target w = Directory False es" for es
  proof -
    from t have "w\<lparr>target := Directory False es\<rparr> = w" by simp
    with t assms show ?thesis
      by (simp add: run_def mkdir_recursive_def validate_def checkPath_def)
  qed
  have occupied: "\<exists>msg. run e fl p w = (Inl (CLIError (Some 10) msg), w)"
    if t: "target w = Directory True (x # xs)" for x xs
  proof -
    from t have "w\<lparr>target := Directory True (x # xs)\<rparr> = w" by simp
    with t assms show ?thesis
      by (simp add: run_def mkdir_recursive_def validate_def checkPath_def)
  qed
  have refused: "run e fl p w = (Inl (Rethrown SystemError), w)"
    if "target w = RegularFile \<or> (target w = Absent \<and> \<not> mkdir_allowed e)"
    using that assms by (auto simp: run_def mkdir_recursive_def)
  from absent run_on_empty_directory [OF assms, of w e p] unreadable occupied refused
  show ?thesis by blast
qed

theorem run_path_validation_witness:
  "run env1 flags0 ''p'' (world1\<lparr>target := Absent\<rparr>) = run env1 flags0 ''p'' world1
   \<and> requests (snd (run env1 flags0 ''p'' world1)) = [releases_url, ''u1'']
   \<and> run env1 flags0 ''p'' (world1\<lparr>target := Directory False [''a'']\<rparr>)
     = (Inl (CLIError (Some 20) ''Directory does not exist''), world1\<lparr>target := Directory False [''a'']\<rparr>)
   \<and> (\<exists>msg. run env1 flags0 ''p'' (world1\<lparr>target := Directory True [''a'', ''b'']\<rparr>)
     = (Inl (CLIError (Some 10) msg), world1\<lparr>target := Directory True [''a'', ''b'']\<rparr>))
   \<and> run env1 flags0 ''p'' (world1\<lparr>target := RegularFile\<rparr>)
     = (Inl (Rethrown SystemError), world1\<lparr>target := RegularFile\<rparr>)"
proof -
  have f: "\<not> force flags0" "\<not> listVersions flags0" by (simp_all add: flags0_def)
  have m: "mkdir_allowed env1" by (simp add: env1_def)
  have e: "world1\<lparr>target := Absent, target := Directory True []\<rparr> = world1"
    by (simp add: world1_def)
  have r: "requests (snd (run env1 flags0 ''p'' world1)) = [releases_url, ''u1'']"
    by (simp add: run_def env1_def flags0_def world1_def mkdir_recursive_def validate_def
        checkPath_def resolve_url_def getTagOrLatest_def fetchGithubVersions_def select_versions_def
        startsWith_def pick_release_def download_def)
  from run_path_validation [OF f, of "world1\<lparr>target := Absent\<rparr>" env1 "''p''"]
    run_path_validation [OF f, of "world1\<lparr>target := Directory False [''a'']\<rparr>" env1 "''p''"]
    run_path_validation [OF f, of "world1\<lparr>target := Directory True [''a'', ''b'']\<rparr>" env1 "''p''"]
    run_path_validation [OF f, of "world1\<lparr>target := RegularFile\<rparr>" env1 "''p''"]
    m e r
  show ?thesis by simp
qed

text \<open>
  Claim C6, as the specification has it, fails for its named case: on a missing target
  directory the command does not end with exit code 20. The directory is made, the
  release listing and the archive are fetched, and the archive is unpacked.
\<close>

theorem missing_directory_counterexample:
  "run env1 flags0 ''p'' (world1\<lparr>target := Absent\<rparr>) =
     (Inr (),
      \<lparr>target = Directory True [''index.html'', ''static''],
       requests = [releases_url, ''u1''],
       printed = [''Your JBrowse 2 setup has been created at p'']\<rparr>)"
  by (simp add: run_def env1_def flags0_def world1_def mkdir_recursive_def validate_def
      checkPath_def resolve_url_def getTagOrLatest_def fetchGithubVersions_def select_versions_def
      startsWith_def pick_release_def download_def top_name_def add_name_def)

lemma validate_world: "snd (validate fl p w) = w"
  by (simp add: validate_def checkPath_def split: option.splits)

lemma download_fst:
  "fst (download e fl p loc w) =
     (case download_reply e loc of
        Rejected \<Rightarrow> Inl (Rethrown SystemError)
      | Response okay ct zs \<Rightarrow>
          if \<not> okay then Inl (CLIError (Some 50) ''Failed to fetch JBrowse2 from server'')
          else if truthy_str (url fl) \<and> ct \<noteq> Some ''application/zip''
                  \<and> ct \<noteq> Some ''application/octet-stream''
          then Inl (CLIError None ''The URL provided does not seem to be a JBrowse installation URL'')
          else Inr ())"
  by (cases "download_reply e loc") (simp_all add: download_def Let_def)

text \<open>
  Claim C8, as the code has it. A failure of \<^verbatim>\<open>mkdir\<close> and a rejected download are
  passed to \<^verbatim>\<open>this.error\<close> without an exit code; a download response that is not ok
  ends the command with exit code 50; a response that is ok is refused for its content
  type only when a direct URL was given, and then \<^verbatim>\<open>this.error\<close> is called without an
  exit code as well.
\<close>

theorem run_failure_categories:
  assumes nl: "\<not> listVersions fl"
  shows "(mkdir_recursive e (target w) = None \<longrightarrow> fst (run e fl p w) = Inl (Rethrown SystemError))
    \<and> (mkdir_recursive e (target w) = Some n
         \<and> fst (validate fl p (w\<lparr>target := n\<rparr>)) = Inr ()
         \<and> fst (resolve_url e fl (w\<lparr>target := n\<rparr>)) = Inr loc \<longrightarrow>
        fst (run e fl p w) =
          (case download_reply e loc of
             Rejected \<Rightarrow> Inl (Rethrown SystemError)
           | Response okay ct zs \<Rightarrow>
               if \<not> okay then Inl (CLIError (Some 50) ''Failed to fetch JBrowse2 from server'')
               else if truthy_str (url fl) \<and> ct \<noteq> Some ''application/zip''
                       \<and> ct \<noteq> Some ''application/octet-stream''
               then Inl (CLIError None
                      ''The URL provided does not seem to be a JBrowse installation URL'')
               else Inr ()))"
proof -
  have a: "fst (run e fl p w) = Inl (Rethrown SystemError)"
    if "mkdir_recursive e (target w) = None"
    using nl that by (simp add: run_def)
  have b: "fst (run e fl p w) = fst (download e fl p loc w3)" 
    if h: "mkdir_recursive e (target w) = Some n"
       "fst (validate fl p (w\<lparr>target := n\<rparr>)) = Inr ()"
       "fst (resolve_url e fl (w\<lparr>target := n\<rparr>)) = Inr loc"
       "w3 = snd (resolve_url e fl (w\<lparr>target := n\<rparr>))" for w3
  proof -
    have v: "validate fl p (w\<lparr>target := n\<rparr>) = (Inr (), w\<lparr>target := n\<rparr>)"
      using h(2) validate_world [of fl p "w\<lparr>target := n\<rparr>"]
      by (cases "validate fl p (w\<lparr>target := n\<rparr>)") simp
    have r: "resolve_url e fl (w\<lparr>target := n\<rparr>) = (Inr loc, w3)"
      using h(3,4) by (cases "resolve_url e fl (w\<lparr>target := n\<rparr>)") simp
    show ?thesis using nl h(1) by (simp add: run_def v r)
  qed
  show ?thesis using a b by (simp only: download_fst) blast
qed

theorem run_failure_categories_witness:
  "fst (run env1 (flags0\<lparr>url := Some ''u7''\<rparr>) ''p'' world1)
     = Inl (CLIError (Some 50) ''Failed to fetch JBrowse2 from server'')
   \<and> fst (run env1 (flags0\<lparr>url := Some ''u9''\<rparr>) ''p'' world1)
     = Inl (CLIError None ''The URL provided does not seem to be a JBrowse installation URL'')
   \<and> fst (run env1 flags0 ''p'' (world1\<lparr>target := RegularFile\<rparr>)) = Inl (Rethrown SystemError)"
  using run_failure_categories [of "flags0\<lparr>url := Some ''u7''\<rparr>" env1 world1 "''p''" "Directory True []" "''u7''"]
    run_failure_categories [of "flags0\<lparr>url := Some ''u9''\<rparr>" env1 world1 "''p''" "Directory True []" "''u9''"]
    run_failure_categories [of flags0 env1 "world1\<lparr>target := RegularFile\<rparr>" "''p''" "Directory True []" "''u9''"]
  by (simp add: world1_def flags0_def env1_def mkdir_recursive_def validate_def checkPath_def
      resolve_url_def)

text \<open>
  Claim C8, as the specification has it, fails: a content type mismatch ends the command
  through a call of \<^verbatim>\<open>this.error\<close> that names no exit code, exactly as a failed fetch
  of the release listing does, so the two categories are not told apart by a code of
  their own.
\<close>

theorem content_type_mismatch_counterexample:
  "fst (run env1 (flags0\<lparr>url := Some ''u9''\<rparr>) ''p'' world1)
     = Inl (CLIError None ''The URL provided does not seem to be a JBrowse installation URL'')
   \<and> fst (run (env1\<lparr>releases_reply := Response False None []\<rparr>) flags0 ''p'' world1)
     = Inl (CLIError None ''Failed to fetch version from server'')"
  by (simp add: run_def env1_def flags0_def world1_def mkdir_recursive_def validate_def
      checkPath_def resolve_url_def download_def getTagOrLatest_def fetchGithubVersions_def)



section \<open>Properties of \<^verbatim>\<open>deepUpdate\<close>\<close>

lemma deepUpdate_exn:
  "deepUpdate a b = Inl (e, s) \<Longrightarrow> e = TypeError"
  "deepUpdate_loop al bl ks = Inl (e, s) \<Longrightarrow> e = TypeError"
  by (induction a b and al bl ks arbitrary: e s and e s rule: deepUpdate_deepUpdate_loop.induct)
     (auto split: sum.splits if_splits option.splits)


lemma has_key_keys: "has_key a k = (k \<in> set (keys a))"
  by (simp add: has_key_def keys_def)

lemma not_has_key_get: "\<not> has_key a k \<Longrightarrow> get a k = Undefined"
  by (auto simp: has_key_def get_def map_of_eq_None_iff [symmetric] simp del: map_of_eq_None_iff split: option.splits)

lemma keys_replace_value: "keys (replace_value a k v) = keys a"
  by (induction a k v rule: replace_value.induct) (auto simp: keys_def)

lemma get_replace_value:
  "has_key a k \<Longrightarrow> get (replace_value a k v) j = (if j = k then v else get a j)"
  by (induction a k v rule: replace_value.induct) (force simp: get_def has_key_def)+

lemma set_keys_insert_index: "set (keys (insert_index a k v)) = insert k (set (keys a))"
  by (induction a k v rule: insert_index.induct) (auto simp: keys_def)

lemma get_insert_index:
  "\<not> has_key a k \<Longrightarrow> get (insert_index a k v) k' = (if k' = k then v else get a k')"
  by (induction a k v rule: insert_index.induct) (auto simp: get_def has_key_def)


lemma get_append_new:
  "\<not> has_key a k \<Longrightarrow> get (a @ [(k, v)]) k' = (if k' = k then v else get a k')"
  by (auto simp: get_def has_key_def map_add_def map_of_eq_None_iff [symmetric]
      simp del: map_of_eq_None_iff split: option.splits)

lemma get_put: "get (put a k v) k' = (if k' = k then v else get a k')"
  unfolding put_def
  by (simp add: get_replace_value get_insert_index get_append_new del: map_of_append)

lemma has_key_put: "has_key (put a k v) k' = (k' = k \<or> has_key a k')"
  unfolding put_def has_key_keys
  by (auto simp: keys_replace_value set_keys_insert_index has_key_keys) (simp_all add: keys_def)






lemma not_own_object: "\<not> has_key a p \<Longrightarrow> typeof_at a p = ''object'' \<Longrightarrow> p = ''__proto__''"
  by (auto simp: typeof_at_def split: if_splits)




lemma loop_throws:
  "k \<in> set ks \<Longrightarrow> has_key a k \<Longrightarrow> get a k = Obj x \<Longrightarrow> get b k = Null \<Longrightarrow>
   \<exists>a'. deepUpdate_loop (Some a) b ks = Inl (TypeError, Some a') \<and> get a' k = Obj x"
proof (induction ks arbitrary: a)
  case Nil
  then show ?case by simp
next
  case (Cons p rest)
  show ?case
  proof (cases "p = k")
    case True
    have "prop_in a k" "typeof_at a k = ''object''"
      using Cons.prems by (simp_all add: prop_in_def typeof_at_def)
    with True Cons.prems show ?thesis by (simp add: get_put)
  next
    case False
    with Cons.prems have k: "k \<in> set rest" by simp
    have keep: "has_key (put a p v) k" "get (put a p v) k = Obj x" for v
      using False Cons.prems by (simp_all add: get_put has_key_put)
    have keep': "has_key (assign a p v) k" "get (assign a p v) k = Obj x" for v
      using keep Cons.prems by (simp_all add: assign_def)
    let ?rec = "prop_in a p \<and> typeof (get b p) = ''object'' \<and> typeof_at a p = ''object''"
    show ?thesis
    proof (cases ?rec)
      case True
      show ?thesis
      proof (cases "has_key a p")
        case own: True
        show ?thesis
        proof (cases "deepUpdate (the_object (get a p)) (the_object (get b p))")
          case (Inl es)
          obtain e s where es: "es = (e, s)" by (cases es)
          with Inl deepUpdate_exn(1) have "e = TypeError" by blast
          with Inl es True own keep show ?thesis by simp
        next
          case (Inr s)
          from Cons.IH [OF k keep Cons.prems(4)] Inr True own show ?thesis by simp
        qed
      next
        case inherited: False
        show ?thesis
        proof (cases "the_object (get b p)")
          case None
          with True inherited Cons.prems show ?thesis by simp
        next
          case (Some ps)
          from Cons.IH [OF k Cons.prems(2,3,4)] Some True inherited show ?thesis by simp
        qed
      qed
    next
      case R: False
      show ?thesis
      proof (cases "undefined_at a p \<or> get b p \<noteq> Undefined")
        case True
        have eq: "deepUpdate_loop (Some a) b (p # rest) = deepUpdate_loop (Some (assign a p (get b p))) b rest"
          using R True by auto
        from Cons.IH [OF k keep' Cons.prems(4)] show ?thesis unfolding eq .
      next
        case F: False
        have eq: "deepUpdate_loop (Some a) b (p # rest) = deepUpdate_loop (Some a) b rest"
          using R F by auto
        from Cons.IH [OF k Cons.prems(2,3,4)] show ?thesis unfolding eq .
      qed
    qed
  qed
qed




text \<open>
  Claim C9. \<^verbatim>\<open>deepUpdate\<close> is not total: when \<open>b\<close> has \<^verbatim>\<open>null\<close> at a key where \<open>a\<close> has
  a record, the call throws a TypeError. The exception leaves \<open>a\<close> with that record still
  in place, and with whatever the keys before it have written.
\<close>

theorem deepUpdate_throws_on_null:
  assumes "has_key b k" "get b k = Null" "has_key a k" "get a k = Obj x"
  shows "\<exists>a'. deepUpdate (Some a) (Some b) = Inl (TypeError, Some a') \<and> get a' k = Obj x"
  using loop_throws [of k "keys b" a x b] assms by (simp add: has_key_keys)

theorem deepUpdate_throws_on_null_witness:
  "deepUpdate (Some conf_a) (Some [(''name'', Str ''other''), (''style'', Null), (''keep'', Num 2)])
     = Inl (TypeError, Some [(''name'', Str ''other''),
              (''style'', Obj [(''color'', Str ''red''), (''height'', Num 10)]), (''keep'', Num 1)])"
  using deepUpdate_throws_on_null [of "[(''name'', Str ''other''), (''style'', Null), (''keep'', Num 2)]"
     "''style''" conf_a "[(''color'', Str ''red''), (''height'', Num 10)]"]
  by (simp add: conf_a_def keys_def has_key_def get_def prop_in_def typeof_at_def undefined_at_def
      assign_def put_def is_index_def)


section \<open>Properties of \<^verbatim>\<open>fillTemplate\<close>\<close>

lemma not_in_class_brace [simp]: "\<not> in_class (CHR ''{'')" "\<not> in_class (CHR ''}'')"
  by (simp_all add: in_class_def is_space_def is_word_def)

lemma followed_by_Nil [simp]: "followed_by (Inr [], []) y = y"
  by (cases y) (auto simp: followed_by_def split: sum.splits)

lemma followed_by_Nil2 [simp]: "followed_by x (Inr [], []) = x"
  by (cases x) (auto simp: followed_by_def split: sum.splits)

lemma followed_by_assoc:
  "followed_by (followed_by x y) z = followed_by x (followed_by y z)"
  by (cases x; cases y; cases z) (auto simp: followed_by_def split: sum.splits)

lemma followed_by_text:
  "followed_by (Inr [c], []) (followed_by (Inr s, []) y) = followed_by (Inr (c # s), []) y"
  by (cases y) (auto simp: followed_by_def split: sum.splits)

lemma match_at_Some:
  "match_at cs = Some (name, rest) \<Longrightarrow>
     cs = name @ CHR ''}'' # rest \<and> name \<noteq> [] \<and> (\<forall>c \<in> set name. in_class c)"
proof -
  assume m: "match_at cs = Some (name, rest)"
  then have n: "name = takeWhile in_class cs" and d: "dropWhile in_class cs \<noteq> []"
    and h: "hd (dropWhile in_class cs) = CHR ''}''" and r: "rest = tl (dropWhile in_class cs)"
    and ne: "name \<noteq> []"
    by (auto simp: match_at_def Let_def split: if_splits)
  from d h r have "dropWhile in_class cs = CHR ''}'' # rest"
    by (cases "dropWhile in_class cs") auto
  with n have "cs = name @ CHR ''}'' # rest"
    using takeWhile_dropWhile_id [of in_class cs] by simp
  moreover from n have "\<forall>c \<in> set name. in_class c" by (auto dest: set_takeWhileD)
  ultimately show ?thesis using ne by simp
qed

lemma match_at_exact:
  "name \<noteq> [] \<Longrightarrow> \<forall>c \<in> set name. in_class c \<Longrightarrow>
   match_at (name @ CHR ''}'' # post) = Some (name, post)"
  by (simp add: match_at_def Let_def takeWhile_append2 dropWhile_append2)

lemma match_at_append_brace:
  "match_at (cs @ CHR ''{'' # s) =
     (case match_at cs of None \<Rightarrow> None | Some (n, r) \<Rightarrow> Some (n, r @ CHR ''{'' # s))"
proof (cases "\<forall>c \<in> set cs. in_class c")
  case True
  then have "takeWhile in_class (cs @ CHR ''{'' # s) = cs" "dropWhile in_class (cs @ CHR ''{'' # s) = CHR ''{'' # s"
    "takeWhile in_class cs = cs" "dropWhile in_class cs = []"
    by (simp_all add: takeWhile_append2 dropWhile_append2)
  then show ?thesis by (simp add: match_at_def Let_def)
next
  case False
  then obtain x where x: "x \<in> set cs" "\<not> in_class x" by blast
  then have "takeWhile in_class (cs @ CHR ''{'' # s) = takeWhile in_class cs"
    "dropWhile in_class (cs @ CHR ''{'' # s) = dropWhile in_class cs @ CHR ''{'' # s"
    "dropWhile in_class cs \<noteq> []"
    by (simp_all add: takeWhile_append1 dropWhile_append1) (auto simp: dropWhile_eq_Nil_conv)
  then show ?thesis by (cases "dropWhile in_class cs") (auto simp: match_at_def Let_def)
qed

lemma fill_append_brace:
  "fillTemplate_from h fw (pre @ CHR ''{'' # s) =
     followed_by (fillTemplate_from h fw pre) (fillTemplate_from h fw (CHR ''{'' # s))"
proof -
  define K where "K = fillTemplate_from h fw (CHR ''{'' # s)"
  have "fillTemplate_from h fw (pre @ CHR ''{'' # s) = followed_by (fillTemplate_from h fw pre) K"
  proof (induction "length pre" arbitrary: pre rule: less_induct)
    case less
    show ?case
    proof (cases pre)
      case Nil
      then show ?thesis by (simp add: K_def del: fillTemplate_from.simps(2))
    next
      case (Cons c cs)
      have IH: "fillTemplate_from h fw (r @ CHR ''{'' # s) = followed_by (fillTemplate_from h fw r) K"
        if "length r < length (c # cs)" for r
        using less [of r] that Cons by simp
      show ?thesis
      proof (cases "c = CHR ''{''")
        case False
        with Cons IH [of cs] show ?thesis by (simp add: followed_by_assoc)
      next
        case True
        show ?thesis
        proof (cases "match_at cs")
          case None
          with True Cons IH [of cs] show ?thesis
            by (simp add: match_at_append_brace followed_by_assoc)
        next
          case (Some nr)
          obtain n r where nr: "nr = (n, r)" by (cases nr)
          with Some have "length r < length cs" by (auto dest: match_at_shorter)
          with True Some nr Cons IH [of r] show ?thesis
            by (simp add: match_at_append_brace followed_by_assoc)
        qed
      qed
    qed
  qed
  then show ?thesis by (simp only: K_def)
qed

lemma fill_placeholder:
  assumes "name \<noteq> []" "\<forall>c \<in> set name. in_class c"
  shows "fillTemplate_from h fw (CHR ''{'' # name @ CHR ''}'' # post) =
     followed_by (replacer h fw (CHR ''{'' # name @ ''}'') name) (fillTemplate_from h fw post)"
  using match_at_exact [OF assms, of post] by simp

lemma fill_around:
  assumes "name \<noteq> []" "\<forall>c \<in> set name. in_class c"
  shows "fillTemplate h (pre @ ''{'' @ name @ ''}'' @ post) fw =
     followed_by (fillTemplate h pre fw)
       (followed_by (replacer h fw (''{'' @ name @ ''}'') name) (fillTemplate h post fw))"
  using fill_append_brace [of h fw pre "name @ CHR ''}'' # post"] fill_placeholder [OF assms, of h fw post]
  by (simp add: fillTemplate_def)

lemma fill_text:
  "CHR ''{'' \<notin> set pre \<Longrightarrow>
   fillTemplate_from h fw (pre @ t) = followed_by (Inr pre, []) (fillTemplate_from h fw t)"
proof (induction pre)
  case Nil
  show ?case by simp
next
  case (Cons c cs)
  then have "c \<noteq> CHR ''{''" "CHR ''{'' \<notin> set cs" by auto
  with Cons.IH show ?case by (simp add: followed_by_text)
qed

lemma replacer_unresolved:
  "unresolved h fw name \<Longrightarrow> fst (replacer h fw m name) = Inr m"
  by (auto simp: unresolved_def replacer_def Let_def callback_call_def)

lemma fill_all_unresolved:
  "\<forall>n \<in> set (placeholders t). unresolved h fw n \<Longrightarrow> fst (fillTemplate_from h fw t) = Inr t"
proof (induction h fw t rule: fillTemplate_from.induct)
  case (1 h fw)
  show ?case by simp
next
  case (2 h fw c cs)
  show ?case
  proof (cases "c = CHR ''{''")
    case False
    with 2 show ?thesis by (simp add: followed_by_def)
  next
    case True
    show ?thesis
    proof (cases "match_at cs")
      case None
      with True 2 show ?thesis by (simp add: followed_by_def)
    next
      case (Some nr)
      obtain n r where nr: "nr = (n, r)" by (cases nr)
      with Some have cs: "cs = n @ CHR ''}'' # r" by (auto dest: match_at_Some)
      from 2(4) True Some nr have u: "unresolved h fw n" and rest: "\<forall>n \<in> set (placeholders r). unresolved h fw n"
        by simp_all
      from 2(2) [OF True Some nr [symmetric] rest] have "fst (fillTemplate_from h fw r) = Inr r" .
      moreover obtain l where "replacer h fw (c # n @ ''}'') n = (Inr (c # n @ ''}''), l)"
        using replacer_unresolved [OF u, of "c # n @ ''}''"] by (cases "replacer h fw (c # n @ ''}'') n") simp
      ultimately show ?thesis using True Some nr cs by (simp add: followed_by_def)
    qed
  qed
qed


lemma followed_by_fst:
  "fst (followed_by x y) =
     (case fst x of Inl e \<Rightarrow> Inl e
      | Inr a \<Rightarrow> (case fst y of Inl e \<Rightarrow> Inl e | Inr b \<Rightarrow> Inr (a @ b)))"
  by (cases x) (auto simp: followed_by_def split: sum.splits)

lemma followed_by_snd:
  "snd (followed_by x y) = (case fst x of Inl e \<Rightarrow> snd x | Inr a \<Rightarrow> snd x @ snd y)"
  by (cases x) (auto simp: followed_by_def split: sum.splits)

lemma replacer_callback:
  "get fw ''callback'' = Fn f \<Longrightarrow> getValue h fw (strip_space n) = Undefined \<Longrightarrow>
   replacer h fw m n =
     (case call h f [Str (strip_space n)] of
        Inl e \<Rightarrow> Inl e
      | Inr v \<Rightarrow> if v \<noteq> Undefined then ToString h v else Inr m,
      [(CallbackCall, f, [Str (strip_space n)])])"
  by (auto simp: replacer_def Let_def callback_call_def split: sum.splits)

lemma replacer_resolved:
  "getValue h fw (strip_space n) \<noteq> Undefined \<Longrightarrow>
   replacer h fw m n =
     (case getValue h fw (strip_space n) of
        Fn g \<Rightarrow> (case call h g [Str (strip_space n)] of
                   Inl e \<Rightarrow> Inl e
                 | Inr v \<Rightarrow> ToString h v,
                 [(FillCall, g, [Str (strip_space n)])])
      | v \<Rightarrow> (ToString h v, []))"
  by (cases "getValue h fw (strip_space n)")
     (simp_all add: replacer_def Let_def split: option.splits)

lemma replacer_log:
  "get fw ''callback'' = Fn f \<Longrightarrow> snd (replacer h fw m n) = expected_calls h fw f n"
proof (cases "getValue h fw (strip_space n) = Undefined")
  case True
  assume "get fw ''callback'' = Fn f"
  from replacer_callback [OF this True] True show ?thesis by (simp add: expected_calls_def)
next
  case False
  from replacer_resolved [OF False] False show ?thesis
    by (cases "getValue h fw (strip_space n)") (simp_all add: expected_calls_def)
qed

lemma fill_log:
  assumes cb: "get fw ''callback'' = Fn f"
  shows "\<exists>k \<le> length (placeholders t).
     snd (fillTemplate_from h fw t) = concat (map (expected_calls h fw f) (take k (placeholders t)))
     \<and> (\<forall>out. fst (fillTemplate_from h fw t) = Inr out \<longrightarrow> k = length (placeholders t))"
  using cb
proof (induction h fw t rule: fillTemplate_from.induct)
  case (1 h fw)
  show ?case by simp
next
  case (2 h fw c cs)
  let ?E = "expected_calls h fw f"
  let ?P = "\<lambda>t k. k \<le> length (placeholders t) \<and>
     snd (fillTemplate_from h fw t) = concat (map ?E (take k (placeholders t)))
     \<and> (\<forall>out. fst (fillTemplate_from h fw t) = Inr out \<longrightarrow> k = length (placeholders t))"
  have plain: "\<exists>k. ?P (c # cs) k"
    if eq: "fillTemplate_from h fw (c # cs) = followed_by (Inr [c], []) (fillTemplate_from h fw cs)"
    and pl: "placeholders (c # cs) = placeholders cs"
    and IH: "\<exists>k. ?P cs k"
  proof -
    from IH obtain k where k: "?P cs k" by blast
    have "?P (c # cs) k" unfolding eq pl using k
      by (auto simp: followed_by_snd followed_by_fst split: sum.splits)
    then show ?thesis by blast
  qed
  show ?case
  proof (cases "c = CHR ''{''")
    case False
    then have "\<exists>k. ?P cs k" using "2.IH"(3) "2.prems" by blast
    then have "\<exists>k. ?P (c # cs) k" using False by (intro plain) simp_all
    then show ?thesis by blast
  next
    case True
    show ?thesis
    proof (cases "match_at cs")
      case None
      then have "\<exists>k. ?P cs k" using True "2.IH"(1) "2.prems" by blast
      then have "\<exists>k. ?P (c # cs) k" using True None by (intro plain) simp_all
      then show ?thesis by blast
    next
      case (Some nr)
      obtain n r where nr: "nr = (n, r)" by (cases nr)
      let ?R = "replacer h fw (c # n @ ''}'') n"
      have eq: "fillTemplate_from h fw (c # cs) = followed_by ?R (fillTemplate_from h fw r)"
        using True Some nr by simp
      have pl: "placeholders (c # cs) = n # placeholders r" using True Some nr by simp
      have log: "snd ?R = ?E n" using replacer_log [OF "2.prems"] .
      from "2.IH"(2) [OF True Some nr [symmetric] "2.prems"] obtain k where k: "?P r k" by blast
      show ?thesis
      proof (cases "fst ?R")
        case (Inl e)
        then have "?P (c # cs) (Suc 0)" unfolding eq pl
          by (simp add: followed_by_snd followed_by_fst log)
        then show ?thesis by blast
      next
        case (Inr x)
        then have "?P (c # cs) (Suc k)" unfolding eq pl using k
          by (auto simp: followed_by_snd followed_by_fst log split: sum.splits)
        then show ?thesis by blast
      qed
    qed
  qed
qed

text \<open>
  Claim C2. A placeholder whose lookup gives \<^verbatim>\<open>undefined\<close>, with no callback or with a
  callback that returns \<^verbatim>\<open>undefined\<close>, is left in the output as it stands, between what
  \<^verbatim>\<open>fillTemplate\<close> makes of the text before it and of the text after it, and it throws
  nothing. Text without an opening brace is copied as it is. A template all of whose
  placeholders are of this kind is returned unchanged.
\<close>

theorem fillTemplate_keeps_unresolved:
  "(name \<noteq> [] \<and> (\<forall>c \<in> set name. in_class c) \<and> unresolved h fw name \<longrightarrow>
      fst (fillTemplate h (pre @ ''{'' @ name @ ''}'' @ post) fw) =
        (case fst (fillTemplate h pre fw) of
           Inl e \<Rightarrow> Inl e
         | Inr x \<Rightarrow> (case fst (fillTemplate h post fw) of
                      Inl e \<Rightarrow> Inl e
                    | Inr y \<Rightarrow> Inr (x @ ''{'' @ name @ ''}'' @ y))))
   \<and> (CHR ''{'' \<notin> set pre \<longrightarrow>
      fst (fillTemplate h (pre @ t) fw) =
        (case fst (fillTemplate h t fw) of Inl e \<Rightarrow> Inl e | Inr y \<Rightarrow> Inr (pre @ y)))
   \<and> ((\<forall>n \<in> set (placeholders t). unresolved h fw n) \<longrightarrow> fst (fillTemplate h t fw) = Inr t)"
proof (intro conjI impI)
  assume a: "name \<noteq> [] \<and> (\<forall>c \<in> set name. in_class c) \<and> unresolved h fw name"
  then have "fst (replacer h fw (''{'' @ name @ ''}'') name) = Inr (''{'' @ name @ ''}'')"
    using replacer_unresolved by blast
  with a fill_around [of name h pre post fw]
  show "fst (fillTemplate h (pre @ ''{'' @ name @ ''}'' @ post) fw) =
        (case fst (fillTemplate h pre fw) of
           Inl e \<Rightarrow> Inl e
         | Inr x \<Rightarrow> (case fst (fillTemplate h post fw) of
                      Inl e \<Rightarrow> Inl e
                    | Inr y \<Rightarrow> Inr (x @ ''{'' @ name @ ''}'' @ y)))"
    by (simp add: followed_by_fst split: sum.splits)
next
  assume "CHR ''{'' \<notin> set pre"
  then show "fst (fillTemplate h (pre @ t) fw) =
        (case fst (fillTemplate h t fw) of Inl e \<Rightarrow> Inl e | Inr y \<Rightarrow> Inr (pre @ y))"
    by (simp add: fillTemplate_def fill_text followed_by_fst)
next
  assume "\<forall>n \<in> set (placeholders t). unresolved h fw n"
  then show "fst (fillTemplate h t fw) = Inr t"
    by (simp add: fillTemplate_def fill_all_unresolved)
qed

theorem fillTemplate_keeps_unresolved_witness:
  "fst (fillTemplate host1 (''a{bar}='' @ ''{'' @ '' no pe '' @ ''}'' @ ''&y'') [(''bar'', Str ''v'')])
     = Inr ''av={ no pe }&y''
   \<and> unresolved host1 [(''bar'', Str ''v'')] '' no pe ''"
  using fillTemplate_keeps_unresolved [of "'' no pe ''" host1 "[(''bar'', Str ''v'')]" "''a{bar}=''" "''&y''" "[]"]
  by (simp add: unresolved_def host1_def get_def strip_space_def in_class_def is_space_def is_word_def
      fillTemplate_def match_at_def followed_by_def replacer_def ToString_def)

text \<open>
  Claim C3, as the code has it. Let \<^verbatim>\<open>fillWith.callback\<close> be the function \<open>f\<close>. The whole log
  of the calls that \<^verbatim>\<open>fillTemplate\<close> makes is, placeholder after placeholder from left to
  right, what \<open>expected_calls\<close> says: for a placeholder whose lookup gives \<^verbatim>\<open>undefined\<close>
  one call of \<open>f\<close> through \<^verbatim>\<open>fillWith.callback.call\<close>, on the name without its whitespace;
  for a placeholder whose lookup gives a function one call of that function through
  \<^verbatim>\<open>fill(varName)\<close>; no call for any other placeholder. When \<^verbatim>\<open>fillTemplate\<close> returns, this
  covers all the placeholders; when a call throws, the placeholders up to some position.
  At a placeholder whose lookup gives \<^verbatim>\<open>undefined\<close> the result of the call of \<open>f\<close> is
  substituted when it is not \<^verbatim>\<open>undefined\<close>, and the placeholder is kept when it is. At a
  placeholder whose lookup gives a value, the value is substituted, or what it returns when
  it is a function.
\<close>

theorem fillTemplate_function_calls:
  assumes cb: "get fw ''callback'' = Fn f"
  shows "(\<forall>out. fst (fillTemplate h t fw) = Inr out \<longrightarrow>
            snd (fillTemplate h t fw) = concat (map (expected_calls h fw f) (placeholders t)))
       \<and> (\<exists>k \<le> length (placeholders t).
            snd (fillTemplate h t fw) = concat (map (expected_calls h fw f) (take k (placeholders t))))
       \<and> (name \<noteq> [] \<and> (\<forall>c \<in> set name. in_class c)
            \<and> getValue h fw (strip_space name) = Undefined \<longrightarrow>
            fillTemplate h (pre @ ''{'' @ name @ ''}'' @ post) fw =
              followed_by (fillTemplate h pre fw)
                (followed_by
                   (case call h f [Str (strip_space name)] of
                      Inl e \<Rightarrow> Inl e
                    | Inr v \<Rightarrow> if v \<noteq> Undefined then ToString h v else Inr (''{'' @ name @ ''}''),
                    [(CallbackCall, f, [Str (strip_space name)])])
                   (fillTemplate h post fw)))
       \<and> (name \<noteq> [] \<and> (\<forall>c \<in> set name. in_class c)
            \<and> getValue h fw (strip_space name) \<noteq> Undefined \<longrightarrow>
            fillTemplate h (pre @ ''{'' @ name @ ''}'' @ post) fw =
              followed_by (fillTemplate h pre fw)
                (followed_by
                   (case getValue h fw (strip_space name) of
                      Fn g \<Rightarrow> (case call h g [Str (strip_space name)] of
                                 Inl e \<Rightarrow> Inl e
                               | Inr v \<Rightarrow> ToString h v,
                               [(FillCall, g, [Str (strip_space name)])])
                    | v \<Rightarrow> (ToString h v, []))
                   (fillTemplate h post fw)))"
proof -
  from fill_log [OF cb, of t h] obtain k where k: "k \<le> length (placeholders t)"
    "snd (fillTemplate h t fw) = concat (map (expected_calls h fw f) (take k (placeholders t)))"
    "\<forall>out. fst (fillTemplate h t fw) = Inr out \<longrightarrow> k = length (placeholders t)"
    unfolding fillTemplate_def by blast
  have returned: "\<forall>out. fst (fillTemplate h t fw) = Inr out \<longrightarrow>
      snd (fillTemplate h t fw) = concat (map (expected_calls h fw f) (placeholders t))"
    using k by auto
  have upto: "\<exists>k \<le> length (placeholders t).
      snd (fillTemplate h t fw) = concat (map (expected_calls h fw f) (take k (placeholders t)))"
    using k by blast
  have fallback: "fillTemplate h (pre @ ''{'' @ name @ ''}'' @ post) fw =
              followed_by (fillTemplate h pre fw)
                (followed_by
                   (case call h f [Str (strip_space name)] of
                      Inl e \<Rightarrow> Inl e
                    | Inr v \<Rightarrow> if v \<noteq> Undefined then ToString h v else Inr (''{'' @ name @ ''}''),
                    [(CallbackCall, f, [Str (strip_space name)])])
                   (fillTemplate h post fw))"
    if "name \<noteq> [] \<and> (\<forall>c \<in> set name. in_class c) \<and> getValue h fw (strip_space name) = Undefined"
    using that replacer_callback [OF cb, of h name "''{'' @ name @ ''}''"]
      fill_around [of name h pre post fw]
    by simp
  have found: "fillTemplate h (pre @ ''{'' @ name @ ''}'' @ post) fw =
              followed_by (fillTemplate h pre fw)
                (followed_by
                   (case getValue h fw (strip_space name) of
                      Fn g \<Rightarrow> (case call h g [Str (strip_space name)] of
                                 Inl e \<Rightarrow> Inl e
                               | Inr v \<Rightarrow> ToString h v,
                               [(FillCall, g, [Str (strip_space name)])])
                    | v \<Rightarrow> (ToString h v, []))
                   (fillTemplate h post fw))"
    if "name \<noteq> [] \<and> (\<forall>c \<in> set name. in_class c) \<and> getValue h fw (strip_space name) \<noteq> Undefined"
    using that replacer_resolved [of h fw name "''{'' @ name @ ''}''"]
      fill_around [of name h pre post fw]
    by simp
  from returned upto fallback found show ?thesis by blast
qed

theorem fillTemplate_function_calls_witness:
  "fillTemplate host1 (''{a}{bar}'' @ ''{'' @ '' skip '' @ ''}'' @ ''!'') fill1
     = (Inr ''FALLBACKsomeurl{ skip }!'',
        [(CallbackCall, 0, [Str ''a'']), (CallbackCall, 0, [Str ''skip''])])
   \<and> fillTemplate host1 (''{a}'' @ ''{'' @ ''callback'' @ ''}'' @ ''{bar}'') fill1
     = (Inr ''FALLBACKFALLBACKsomeurl'',
        [(CallbackCall, 0, [Str ''a'']), (FillCall, 0, [Str ''callback''])])
   \<and> concat (map (expected_calls host1 fill1 0) (placeholders ''{a}{callback}{bar}''))
     = [(CallbackCall, 0, [Str ''a'']), (FillCall, 0, [Str ''callback''])]
   \<and> get fill1 ''callback'' = Fn 0"
  using fillTemplate_function_calls [of fill1 0 host1 "''{a}{callback}{bar}''" "'' skip ''" "''{a}{bar}''" "''!''"]
    fillTemplate_function_calls [of fill1 0 host1 "[]" "''callback''" "''{a}''" "''{bar}''"]
  by (simp add: fill1_def host1_def get_def strip_space_def in_class_def is_space_def is_word_def
      fillTemplate_def match_at_def followed_by_def replacer_def ToString_def callback_call_def
      expected_calls_def)

text \<open>
  Claim C3, as the specification has it, fails at the placeholder \<^verbatim>\<open>{callback}\<close>: the lookup
  of the name succeeds, so the placeholder is resolved, and what it finds is the callback
  function, which line 49 calls on the name.
\<close>

theorem callback_placeholder_counterexample:
  "getValue host1 fill1 (strip_space ''callback'') = Fn 0
   \<and> get fill1 ''callback'' = Fn 0
   \<and> fillTemplate host1 ''{callback}'' fill1 = (Inr ''FALLBACK'', [(FillCall, 0, [Str ''callback''])])"
  by (simp add: fill1_def host1_def get_def strip_space_def in_class_def is_space_def is_word_def
      fillTemplate_def match_at_def followed_by_def replacer_def ToString_def callback_call_def
      expected_calls_def)

section \<open>Properties of \<^verbatim>\<open>clone\<close>\<close>

lemma those_map_iff: "(those (map f xs) = Some ys) = list_all2 (\<lambda>x y. f x = Some y) xs ys"
  by (induction xs arbitrary: ys) (auto simp: list_all2_Cons1 split: option.splits)

lemma reify_Ref_cases:
  assumes "reify (Suc d) s (Ref a) = Some t"
  shows "a < length s \<and>
    (case s ! a of
       Date x \<Rightarrow> t = DateT a x
     | RegExp x f \<Rightarrow> t = RegExpT a x f
     | Array es \<Rightarrow> (\<exists>ts. t = ArrayT a ts \<and>
         list_all2 (\<lambda>e u. case e of None \<Rightarrow> u = None
                              | Some v \<Rightarrow> (\<exists>t'. u = Some t' \<and> reify d s v = Some t')) es ts)
     | Plain ps \<Rightarrow> (\<exists>kts. t = PlainT a kts \<and>
         list_all2 (\<lambda>p kt. fst kt = fst p \<and> reify d s (snd p) = Some (snd kt)) ps kts))"
proof -
  from assms have a: "a < length s" by (auto split: if_splits)
  show ?thesis
  proof (cases "s ! a")
    case (Date x)
    with assms a show ?thesis by auto
  next
    case (RegExp x f)
    with assms a show ?thesis by auto
  next
    case (Array es)
    with assms a obtain ts where ts: "t = ArrayT a ts"
      "list_all2 (\<lambda>e u. (case e of None \<Rightarrow> Some None | Some v \<Rightarrow> map_option Some (reify d s v)) = Some u) es ts"
      by (auto simp: those_map_iff)
    from ts(2) have "list_all2 (\<lambda>e u. case e of None \<Rightarrow> u = None
                              | Some v \<Rightarrow> (\<exists>t'. u = Some t' \<and> reify d s v = Some t')) es ts"
      by (rule list_all2_mono) (auto split: option.splits)
    with ts(1) a Array show ?thesis by simp
  next
    case (Plain ps)
    with assms a obtain kts where kts: "t = PlainT a kts"
      "list_all2 (\<lambda>p kt. (case p of (k, v) \<Rightarrow> map_option (Pair k) (reify d s v)) = Some kt) ps kts"
      by (auto simp: those_map_iff)
    from kts(2) have "list_all2 (\<lambda>p kt. fst kt = fst p \<and> reify d s (snd p) = Some (snd kt)) ps kts"
      by (rule list_all2_mono) (auto split: prod.splits)
    with kts(1) a Plain show ?thesis by simp
  qed
qed

lemma those_map_Some_cong:
  "those (map f xs) = Some ys \<Longrightarrow> (\<And>x y. x \<in> set xs \<Longrightarrow> f x = Some y \<Longrightarrow> g x = Some y) \<Longrightarrow>
   those (map g xs) = Some ys"
  by (induction xs arbitrary: ys) (auto split: option.splits)

lemma reify_mono: "reify d s v = Some t \<Longrightarrow> reify d (s @ hs) v = Some t"
proof (induction d arbitrary: v t)
  case 0
  then show ?case by (cases v) simp_all
next
  case (Suc d)
  show ?case
  proof (cases v)
    case (Ref a)
    from Suc.prems Ref have a: "a < length s" by (auto split: if_splits)
    then have nth: "(s @ hs) ! a = s ! a" by (simp add: nth_append)
    note cong = those_map_Some_cong
    show ?thesis
    proof (cases "s ! a")
      case (Array es)
      from Suc.prems Ref a Array obtain ts where ts: "t = ArrayT a ts"
        "those (map (\<lambda>e. case e of None \<Rightarrow> Some None | Some v \<Rightarrow> map_option Some (reify d s v)) es) = Some ts"
        by auto
      have "those (map (\<lambda>e. case e of None \<Rightarrow> Some None | Some v \<Rightarrow> map_option Some (reify d (s @ hs) v)) es) = Some ts"
      proof (rule cong [OF ts(2)])
        fix e u assume "e \<in> set es"
          and eu: "(case e of None \<Rightarrow> Some None | Some v \<Rightarrow> map_option Some (reify d s v)) = Some u"
        show "(case e of None \<Rightarrow> Some None | Some v \<Rightarrow> map_option Some (reify d (s @ hs) v)) = Some u"
          using eu Suc.IH by (cases e) auto
      qed
      with ts(1) Ref a Array nth show ?thesis by simp
    next
      case (Plain ps)
      from Suc.prems Ref a Plain obtain kts where kts: "t = PlainT a kts"
        "those (map (\<lambda>(k, v). map_option (Pair k) (reify d s v)) ps) = Some kts"
        by auto
      have "those (map (\<lambda>(k, v). map_option (Pair k) (reify d (s @ hs) v)) ps) = Some kts"
      proof (rule cong [OF kts(2)])
        fix p kt assume "p \<in> set ps"
          and pk: "(case p of (k, v) \<Rightarrow> map_option (Pair k) (reify d s v)) = Some kt"
        show "(case p of (k, v) \<Rightarrow> map_option (Pair k) (reify d (s @ hs) v)) = Some kt"
          using pk Suc.IH by (cases p) auto
      qed
      with kts(1) Ref a Plain nth show ?thesis by simp
    qed (use Suc.prems Ref a nth in auto)
  qed (use Suc.prems in auto)
qed

lemma returnsD:
  assumes "returns copy d" "reify d s0 v = Some t"
  obtains res where "copy (s0 @ hs) v = Some res" "\<And>r s'. res = Inr (r, s') \<Longrightarrow> \<exists>hs'. s' = s0 @ hs'"
proof -
  from assms(2) have "reify d (s0 @ hs) v = Some t" by (rule reify_mono)
  with assms(1) obtain res where r: "copy (s0 @ hs) v = Some res"
    "\<forall>r s'. res = Inr (r, s') \<longrightarrow> (\<exists>hs'. s' = (s0 @ hs) @ hs')"
    unfolding returns_def by blast
  from r(2) have "\<exists>hs'. s' = s0 @ hs'" if "res = Inr (r, s')" for r s'
    using that by (metis append_assoc)
  with r(1) that show ?thesis by blast
qed

lemma clone_elems_returns:
  assumes "returns copy d" "\<forall>v. Some v \<in> set es \<longrightarrow> (\<exists>t. reify d s0 v = Some t)"
  shows "\<exists>res. clone_elems copy (s0 @ hs) es = Some res \<and>
           (\<forall>r s'. res = Inr (r, s') \<longrightarrow> (\<exists>hs'. s' = s0 @ hs'))"
  using assms(2)
proof (induction es arbitrary: hs)
  case Nil
  show ?case by simp
next
  case (Cons e es)
  then have IH: "\<exists>res. clone_elems copy (s0 @ hs) es = Some res \<and>
           (\<forall>r s'. res = Inr (r, s') \<longrightarrow> (\<exists>hs'. s' = s0 @ hs'))" for hs
    by simp
  show ?case
  proof (cases e)
    case None
    from IH [of hs] obtain res where res: "clone_elems copy (s0 @ hs) es = Some res"
      "\<forall>r s'. res = Inr (r, s') \<longrightarrow> (\<exists>hs'. s' = s0 @ hs')" by blast
    with None show ?thesis by (cases res) auto
  next
    case (Some x)
    with Cons.prems obtain t where "reify d s0 x = Some t" by auto
    from returnsD [OF assms(1) this, of hs] obtain res where res: "copy (s0 @ hs) x = Some res"
      "\<And>r s'. res = Inr (r, s') \<Longrightarrow> \<exists>hs'. s' = s0 @ hs'" by blast
    show ?thesis
    proof (cases res)
      case (Inl e)
      with res Some show ?thesis by simp
    next
      case (Inr p)
      obtain v s1 where p: "p = (v, s1)" by (cases p)
      with res(2) Inr obtain hs1 where s1: "s1 = s0 @ hs1" by blast
      from IH [of hs1] obtain res2 where res2: "clone_elems copy (s0 @ hs1) es = Some res2"
        "\<forall>r s'. res2 = Inr (r, s') \<longrightarrow> (\<exists>hs'. s' = s0 @ hs')" by blast
      with res(1) Inr p s1 Some show ?thesis by (cases res2) auto
    qed
  qed
qed


lemma mixin_elems_returns:
  assumes "returns copy d" "\<forall>v. Some v \<in> set es \<longrightarrow> (\<exists>t. reify d s0 v = Some t)"
  shows "\<exists>res. mixin_elems copy (s0 @ hs) dest es = Some res \<and>
           (\<forall>r s'. res = Inr (r, s') \<longrightarrow> (\<exists>hs'. s' = s0 @ hs'))"
  using assms(2)
proof (induction es arbitrary: hs dest)
  case Nil
  show ?case by simp
next
  case (Cons e es)
  then have IH: "\<exists>res. mixin_elems copy (s0 @ hs) dest es = Some res \<and>
           (\<forall>r s'. res = Inr (r, s') \<longrightarrow> (\<exists>hs'. s' = s0 @ hs'))" for hs dest
    by simp
  have skip: "\<exists>res. (case mixin_elems copy (s0 @ hs) (tl dest) es of
        None \<Rightarrow> None
      | Some (Inl e) \<Rightarrow> Some (Inl e)
      | Some (Inr (r, s1)) \<Rightarrow> Some (Inr (f r, s1))) = Some res \<and>
           (\<forall>r s'. res = Inr (r, s') \<longrightarrow> (\<exists>hs'. s' = s0 @ hs'))" for f :: "val option list \<Rightarrow> val option list"
  proof -
    from IH [of hs "tl dest"] obtain res where res: "mixin_elems copy (s0 @ hs) (tl dest) es = Some res"
      "\<forall>r s'. res = Inr (r, s') \<longrightarrow> (\<exists>hs'. s' = s0 @ hs')" by blast
    then show ?thesis by (cases res) auto
  qed
  show ?case
  proof (cases e)
    case None
    with skip show ?thesis by simp
  next
    case (Some x)
    show ?thesis
    proof (cases "dest = [] \<or> hd dest = None \<or> hd dest \<noteq> Some x")
      case False
      with Some skip [of "\<lambda>r. hd dest # r"] show ?thesis by simp
    next
      case True
      from Some Cons.prems obtain t where "reify d s0 x = Some t" by auto
      from returnsD [OF assms(1) this, of hs] obtain res where res: "copy (s0 @ hs) x = Some res"
        "\<And>r s'. res = Inr (r, s') \<Longrightarrow> \<exists>hs'. s' = s0 @ hs'" by blast
      show ?thesis
      proof (cases res)
        case (Inl e)
        with res Some True show ?thesis by simp
      next
        case (Inr p)
        obtain v s1 where p: "p = (v, s1)" by (cases p)
        with res(2) Inr obtain hs1 where s1: "s1 = s0 @ hs1" by blast
        from IH [of hs1 "tl dest"] obtain res2 where res2: "mixin_elems copy (s0 @ hs1) (tl dest) es = Some res2"
          "\<forall>r s'. res2 = Inr (r, s') \<longrightarrow> (\<exists>hs'. s' = s0 @ hs')" by blast
        with res(1) Inr p s1 Some True show ?thesis by (cases res2) auto
      qed
    qed
  qed
qed

lemma mixin_props_returns:
  assumes "returns copy d" "\<forall>p \<in> set rest. \<exists>t. reify d s0 (snd p) = Some t"
  shows "\<exists>res. mixin_props copy (s0 @ hs) inh dest rest = Some res \<and>
           (\<forall>r s'. res = Inr (r, s') \<longrightarrow> (\<exists>hs'. s' = s0 @ hs'))"
  using assms(2)
proof (induction rest arbitrary: hs dest)
  case Nil
  show ?case by simp
next
  case (Cons p rest)
  obtain name x where p: "p = (name, x)" by (cases p)
  from Cons have IH: "\<exists>res. mixin_props copy (s0 @ hs) inh dest rest = Some res \<and>
           (\<forall>r s'. res = Inr (r, s') \<longrightarrow> (\<exists>hs'. s' = s0 @ hs'))" for hs dest
    by simp
  show ?case
  proof (cases "must_copy inh dest name x")
    case False
    with p IH [of hs dest] show ?thesis by simp
  next
    case True
    from p Cons.prems obtain t where "reify d s0 x = Some t" by auto
    from returnsD [OF assms(1) this, of hs] obtain res where res: "copy (s0 @ hs) x = Some res"
      "\<And>r s'. res = Inr (r, s') \<Longrightarrow> \<exists>hs'. s' = s0 @ hs'" by blast
    show ?thesis
    proof (cases res)
      case (Inl e)
      with res p True show ?thesis by simp
    next
      case (Inr q)
      obtain v s1 where q: "q = (v, s1)" by (cases q)
      with res(2) Inr obtain hs1 where s1: "s1 = s0 @ hs1" by blast
      from IH [of hs1 "assign_prop dest name v"] res(1) Inr q s1 p True show ?thesis by simp
    qed
  qed
qed

lemma clone_object_returns:
  assumes ok: "returns copy d" and t: "reify (Suc d) s (Ref a) = Some t"
  shows "\<exists>res. clone_object h copy s a = Some res \<and>
           (\<forall>r s'. res = Inr (r, s') \<longrightarrow> (\<exists>hs. s' = s @ hs))"
proof -
  note rc = reify_Ref_cases [OF t]
  then have a: "\<not> length s \<le> a" by simp
  show ?thesis
  proof (cases "node_like (s ! a)")
    case True
    with a show ?thesis
      by (auto simp: clone_object_def split: val.splits sum.splits)
  next
    case False
    show ?thesis
    proof (cases "s ! a")
      case (Date x)
      with a False show ?thesis by (simp add: clone_object_def)
    next
      case (RegExp x f)
      with a False show ?thesis by (simp add: clone_object_def)
    next
      case (Array es)
      with rc obtain ts where ts: "list_all2 (\<lambda>e u. case e of None \<Rightarrow> u = None
                              | Some v \<Rightarrow> (\<exists>t'. u = Some t' \<and> reify d s v = Some t')) es ts"
        by auto
      have ch: "\<forall>v. Some v \<in> set es \<longrightarrow> (\<exists>t. reify d s v = Some t)"
      proof (intro allI impI)
        fix v assume "Some v \<in> set es"
        then obtain i where "i < length es" "es ! i = Some v" by (auto simp: in_set_conv_nth)
        with ts show "\<exists>t. reify d s v = Some t"
          by (auto simp: list_all2_conv_all_nth split: option.splits)
      qed
      from clone_elems_returns [OF ok ch, of "[]"] obtain res where res:
        "clone_elems copy s es = Some res" "\<forall>r s'. res = Inr (r, s') \<longrightarrow> (\<exists>hs'. s' = s @ hs')"
        by auto
      show ?thesis
      proof (cases res)
        case (Inl e)
        with res a False Array show ?thesis by (simp add: clone_object_def)
      next
        case (Inr p)
        obtain r s1 where p: "p = (r, s1)" by (cases p)
        with res(2) Inr obtain hs1 where s1: "s1 = s @ hs1" by blast
        from mixin_elems_returns [OF ok ch, of hs1 r] obtain res2 where res2:
          "mixin_elems copy (s @ hs1) r es = Some res2" "\<forall>r s'. res2 = Inr (r, s') \<longrightarrow> (\<exists>hs'. s' = s @ hs')"
          by auto
        show ?thesis
        proof (cases res2)
          case (Inl e)
          with res(1) res2(1) Inr p s1 a False Array show ?thesis by (simp add: clone_object_def)
        next
          case I2: (Inr p2)
          obtain r2 s2 where p2: "p2 = (r2, s2)" by (cases p2)
          with res2(2) I2 obtain hs2 where "s2 = s @ hs2" by blast
          with res(1) res2(1) Inr p s1 I2 p2 a False Array show ?thesis by (simp add: clone_object_def)
        qed
      qed
    next
      case (Plain ps)
      with rc obtain kts where kts: "list_all2 (\<lambda>p kt. fst kt = fst p \<and> reify d s (snd p) = Some (snd kt)) ps kts"
        by auto
      have ch: "\<forall>p \<in> set ps. \<exists>t. reify d s (snd p) = Some t"
      proof
        fix p assume "p \<in> set ps"
        then obtain i where "i < length ps" "ps ! i = p" by (auto simp: in_set_conv_nth)
        with kts show "\<exists>t. reify d s (snd p) = Some t"
          by (auto simp: list_all2_conv_all_nth)
      qed
      show ?thesis
      proof (cases "new_like h ps")
        case (Inl e)
        with a False Plain show ?thesis by (simp add: clone_object_def)
      next
        case (Inr ri)
        obtain r inh where ri: "ri = (r, inh)" by (cases ri)
        note Inr = Inr [unfolded ri]
        from mixin_props_returns [OF ok ch, of "[]" inh r] obtain res where res:
          "mixin_props copy s inh r ps = Some res" "\<forall>r s'. res = Inr (r, s') \<longrightarrow> (\<exists>hs'. s' = s @ hs')"
          by auto
        show ?thesis
        proof (cases res)
          case (Inl e)
          with res Inr a False Plain show ?thesis by (simp add: clone_object_def)
        next
          case I2: (Inr p2)
          obtain r2 s2 where p2: "p2 = (r2, s2)" by (cases p2)
          with res(2) I2 obtain hs2 where "s2 = s @ hs2" by blast
          with res(1) Inr I2 p2 a False Plain show ?thesis by (simp add: clone_object_def)
        qed
      qed
    qed
  qed
qed

lemma clone_Suc_Ref: "clone h (Suc n) s (Ref a) = clone_object h (clone h n) s a"
  by simp

lemma clone_Suc_prim: "(\<And>a. v \<noteq> Ref a) \<Longrightarrow> clone h (Suc n) s v = Some (Inr (v, s))"
  by (cases v) auto

lemma clone_returns: "returns (clone h (Suc d)) d"
proof (induction d)
  case 0
  show ?case unfolding returns_def
  proof (intro allI impI)
    fix s v t assume "reify 0 s v = Some t"
    then show "\<exists>res. clone h (Suc 0) s v = Some res \<and> (\<forall>r s'. res = Inr (r, s') \<longrightarrow> (\<exists>hs. s' = s @ hs))"
      by (cases v) simp_all
  qed
next
  case (Suc d)
  show ?case unfolding returns_def
  proof (intro allI impI)
    fix s v t assume t: "reify (Suc d) s v = Some t"
    show "\<exists>res. clone h (Suc (Suc d)) s v = Some res \<and> (\<forall>r s'. res = Inr (r, s') \<longrightarrow> (\<exists>hs. s' = s @ hs))"
    proof (cases v)
      case (Ref a)
      with t have "reify (Suc d) s (Ref a) = Some t" by simp
      from clone_object_returns [OF Suc this, of h] show ?thesis
        unfolding Ref clone_Suc_Ref .
    qed simp_all
  qed
qed

lemma clone_cyclic: "clone h n cyclic_store (Ref 0) = None"
proof (induction n)
  case 0
  show ?case by simp
next
  case (Suc n)
  then show ?case
    by (simp add: cyclic_store_def clone_object_def node_like_def new_like_def own_has_def own_get_def
        must_copy_def has_prop_def object_prototype_def prototype_members_def)
qed

lemma clone_elems_agrees:
  "agrees c c' \<Longrightarrow> clone_elems c s es = Some res \<Longrightarrow> clone_elems c' s es = Some res"
proof (induction es arbitrary: s res)
  case Nil
  then show ?case by simp
next
  case (Cons e es)
  show ?case
  proof (cases e)
    case None
    with Cons.prems(2) obtain r where r: "clone_elems c s es = Some r"
      by (cases "clone_elems c s es") auto
    from Cons.IH [OF Cons.prems(1) r] r Cons.prems(2) None show ?thesis by simp
  next
    case (Some x)
    with Cons.prems(2) obtain r where r: "c s x = Some r" by (cases "c s x") auto
    with Cons.prems(1) have r': "c' s x = Some r" by (simp add: agrees_def)
    show ?thesis
    proof (cases r)
      case (Inl e)
      with r r' Cons.prems(2) Some show ?thesis by simp
    next
      case (Inr p)
      obtain v s1 where p: "p = (v, s1)" by (cases p)
      with Cons.prems(2) Some r Inr obtain r2 where r2: "clone_elems c s1 es = Some r2"
        by (cases "clone_elems c s1 es") auto
      from Cons.IH [OF Cons.prems(1) r2] r2 r r' Inr p Some Cons.prems(2) show ?thesis by simp
    qed
  qed
qed

lemma mixin_elems_agrees:
  "agrees c c' \<Longrightarrow> mixin_elems c s dest es = Some res \<Longrightarrow> mixin_elems c' s dest es = Some res"
proof (induction es arbitrary: s dest res)
  case Nil
  then show ?case by simp
next
  case (Cons e es)
  have skip: "mixin_elems c' s (tl dest) es = Some r" if "mixin_elems c s (tl dest) es = Some r" for r
    using Cons.IH [OF Cons.prems(1) that] .
  show ?case
  proof (cases e)
    case None
    with Cons.prems(2) obtain r where r: "mixin_elems c s (tl dest) es = Some r"
      by (cases "mixin_elems c s (tl dest) es") auto
    from skip [OF r] r Cons.prems(2) None show ?thesis by simp
  next
    case (Some x)
    show ?thesis
    proof (cases "dest = [] \<or> hd dest = None \<or> hd dest \<noteq> Some x")
      case False
      with Cons.prems(2) Some obtain r where r: "mixin_elems c s (tl dest) es = Some r"
        by (cases "mixin_elems c s (tl dest) es") auto
      from skip [OF r] r Cons.prems(2) Some False show ?thesis by simp
    next
      case True
      with Cons.prems(2) Some obtain r where r: "c s x = Some r" by (cases "c s x") auto
      with Cons.prems(1) have r': "c' s x = Some r" by (simp add: agrees_def)
      show ?thesis
      proof (cases r)
        case (Inl e)
        with r r' Cons.prems(2) Some True show ?thesis by simp
      next
        case (Inr p)
        obtain v s1 where p: "p = (v, s1)" by (cases p)
        with Cons.prems(2) Some True r Inr obtain r2 where r2: "mixin_elems c s1 (tl dest) es = Some r2"
          by (cases "mixin_elems c s1 (tl dest) es") auto
        from Cons.IH [OF Cons.prems(1) r2] r2 r r' Inr p Some True Cons.prems(2) show ?thesis by simp
      qed
    qed
  qed
qed

lemma mixin_props_agrees:
  "agrees c c' \<Longrightarrow> mixin_props c s inh dest rest = Some res \<Longrightarrow>
   mixin_props c' s inh dest rest = Some res"
proof (induction rest arbitrary: s dest res)
  case Nil
  then show ?case by simp
next
  case (Cons q rest)
  obtain name x where q: "q = (name, x)" by (cases q)
  show ?case
  proof (cases "must_copy inh dest name x")
    case False
    with Cons.prems(2) q have "mixin_props c s inh dest rest = Some res" by simp
    from Cons.IH [OF Cons.prems(1) this] False q show ?thesis by simp
  next
    case True
    with Cons.prems(2) q obtain r where r: "c s x = Some r" by (cases "c s x") auto
    with Cons.prems(1) have r': "c' s x = Some r" by (simp add: agrees_def)
    show ?thesis
    proof (cases r)
      case (Inl e)
      with r r' Cons.prems(2) q True show ?thesis by simp
    next
      case (Inr p)
      obtain v s1 where p: "p = (v, s1)" by (cases p)
      with Cons.prems(2) q True r Inr have "mixin_props c s1 inh (assign_prop dest name v) rest = Some res" by simp
      from Cons.IH [OF Cons.prems(1) this] r' Inr p q True show ?thesis by simp
    qed
  qed
qed

lemma clone_object_agrees:
  assumes "agrees c c'" "clone_object h c s a = Some res"
  shows "clone_object h c' s a = Some res"
proof (cases "length s \<le> a \<or> node_like (s ! a)")
  case True
  with assms(2) show ?thesis by (auto simp: clone_object_def)
next
  case False
  show ?thesis
  proof (cases "s ! a")
    case (Date x)
    with assms(2) False show ?thesis by (simp add: clone_object_def)
  next
    case (RegExp x f)
    with assms(2) False show ?thesis by (simp add: clone_object_def)
  next
    case (Array es)
    with assms(2) False obtain r where r: "clone_elems c s es = Some r"
      by (cases "clone_elems c s es") (auto simp: clone_object_def)
    note r' = clone_elems_agrees [OF assms(1) r]
    show ?thesis
    proof (cases r)
      case (Inl e)
      with r r' assms(2) False Array show ?thesis by (simp add: clone_object_def)
    next
      case (Inr p)
      obtain v s1 where p: "p = (v, s1)" by (cases p)
      with assms(2) False Array r Inr obtain r2 where r2: "mixin_elems c s1 v es = Some r2"
        by (cases "mixin_elems c s1 v es") (auto simp: clone_object_def)
      from mixin_elems_agrees [OF assms(1) r2] r2 r r' Inr p assms(2) False Array
      show ?thesis by (simp add: clone_object_def)
    qed
  next
    case (Plain ps)
    show ?thesis
    proof (cases "new_like h ps")
      case (Inl e)
      with assms(2) False Plain show ?thesis by (simp add: clone_object_def)
    next
      case (Inr ri)
      obtain r0 inh where ri: "ri = (r0, inh)" by (cases ri)
      note Inr = Inr [unfolded ri]
      with assms(2) False Plain obtain r where r: "mixin_props c s inh r0 ps = Some r"
        by (cases "mixin_props c s inh r0 ps") (auto simp: clone_object_def)
      from mixin_props_agrees [OF assms(1) r] r Inr assms(2) False Plain
      show ?thesis by (simp add: clone_object_def)
    qed
  qed
qed

lemma clone_Suc_agrees: "agrees (clone h n) (clone h (Suc n))"
proof (induction n)
  case 0
  show ?case by (simp add: agrees_def)
next
  case (Suc n)
  show ?case unfolding agrees_def
  proof (intro allI impI)
    fix s v res assume r: "clone h (Suc n) s v = Some res"
    show "clone h (Suc (Suc n)) s v = Some res"
    proof (cases "\<exists>a. v = Ref a")
      case True
      then obtain a where v: "v = Ref a" by blast
      from r have "clone_object h (clone h n) s a = Some res" unfolding v clone_Suc_Ref .
      from clone_object_agrees [OF Suc this] show ?thesis unfolding v clone_Suc_Ref .
    next
      case False
      then have p: "\<And>a. v \<noteq> Ref a" by blast
      from r show ?thesis unfolding clone_Suc_prim [OF p] .
    qed
  qed
qed

lemma clone_more_calls: "clone h n s v = Some res \<Longrightarrow> clone h (n + k) s v = Some res"
proof (induction k)
  case 0
  then show ?case by simp
next
  case (Suc k)
  with clone_Suc_agrees [of h "n + k"] show ?case unfolding agrees_def by simp
qed

text \<open>
  Claim C5. \<^verbatim>\<open>clone\<close> terminates on every value whose object graph is acyclic: when the
  value has an unfolding of depth \<open>d\<close>, \<open>d + 1\<close> nested calls are enough for a result, a
  value or an exception, and any larger number gives the same result. On a record that
  refers to itself no number of nested calls is enough.
\<close>

theorem clone_terminates:
  "(reify d s v = Some t \<longrightarrow> (\<exists>res. \<forall>k. clone h (Suc d + k) s v = Some res))
   \<and> (\<forall>n. clone h n cyclic_store (Ref 0) = None)"
proof (intro conjI impI allI)
  assume "reify d s v = Some t"
  with clone_returns [of h d] obtain res where "clone h (Suc d) s v = Some res"
    unfolding returns_def by blast
  then have "\<forall>k. clone h (Suc d + k) s v = Some res" by (blast intro: clone_more_calls)
  then show "\<exists>res. \<forall>k. clone h (Suc d + k) s v = Some res" ..
next
  fix n show "clone h n cyclic_store (Ref 0) = None" by (rule clone_cyclic)
qed

theorem clone_terminates_witness:
  "reify 3 store1 (Ref 0) =
     Some (PlainT 0 [(''a'', Leaf (VNum 1)), (''d'', DateT 1 5),
       (''xs'', ArrayT 2 [Some (RegExpT 3 ''a+'' ''g''), None, Some (Leaf (VStr ''s''))])])
   \<and> (\<exists>res. clone dom0 (Suc 3 + 2) store1 (Ref 0) = Some res)
   \<and> clone dom0 9 cyclic_store (Ref 0) = None"
proof -
  have r: "reify 3 store1 (Ref 0) =
     Some (PlainT 0 [(''a'', Leaf (VNum 1)), (''d'', DateT 1 5),
       (''xs'', ArrayT 2 [Some (RegExpT 3 ''a+'' ''g''), None, Some (Leaf (VStr ''s''))])])"
    by code_simp
  from clone_terminates [of 3 store1 "Ref 0" _ dom0] r show ?thesis by blast
qed


lemma reify_prim: "(\<And>a. v \<noteq> Ref a) \<Longrightarrow> reify d s v = Some (Leaf v)"
  by (cases v) auto

lemma reify_Ref_not_Leaf: "reify d s (Ref a) = Some t \<Longrightarrow> t \<noteq> Leaf v \<and> a < length s"
  by (cases d) (auto split: if_splits hobj.splits)

lemma reify_Leaf: "reify d s v = Some (Leaf x) \<Longrightarrow> x = v \<and> (\<forall>a. v \<noteq> Ref a)"
  by (cases v) (auto dest: reify_Ref_not_Leaf)

lemma reify_root_addr: "reify d s (Ref a) = Some t \<Longrightarrow> a \<in> addrs t"
  by (cases d) (auto split: if_splits hobj.splits)

lemma shape_Leaf: "shape t' = shape t \<Longrightarrow> (t' = Leaf v) = (t = Leaf v)"
  by (cases t; cases t') auto

lemma copiesD:
  assumes "copies copy d" "reify d s0 x = Some t" "cloneable t"
  obtains v hs1 t' where "copy (s0 @ hs) x = Some (Inr (v, (s0 @ hs) @ hs1))"
    "reify d ((s0 @ hs) @ hs1) v = Some t'" "shape t' = shape t"
    "\<forall>a \<in> addrs t'. length s0 \<le> a"
    "(\<forall>a. x \<noteq> Ref a) \<longrightarrow> v = x" "(\<exists>a. x = Ref a) \<longrightarrow> v \<noteq> x"
proof -
  from assms(2) have r: "reify d (s0 @ hs) x = Some t" by (rule reify_mono)
  with assms(1,3) obtain v s' t' where c: "copy (s0 @ hs) x = Some (Inr (v, s'))" "\<exists>hs1. s' = (s0 @ hs) @ hs1"
    "reify d s' v = Some t'" "shape t' = shape t" "\<forall>a \<in> addrs t'. length (s0 @ hs) \<le> a"
    "(\<forall>a. x \<noteq> Ref a) \<longrightarrow> v = x \<and> s' = s0 @ hs"
    unfolding copies_def by blast
  from c(2) obtain hs1 where s': "s' = (s0 @ hs) @ hs1" by blast
  have ne: "v \<noteq> x" if "x = Ref a" for a
  proof
    assume "v = x"
    with that c(3) have "a \<in> addrs t'" by (auto dest: reify_root_addr)
    with c(5) have "length (s0 @ hs) \<le> a" by blast
    moreover from r that have "a < length (s0 @ hs)" by (auto dest: reify_Ref_not_Leaf)
    ultimately show False by simp
  qed
  from c(5) have "\<forall>a \<in> addrs t'. length s0 \<le> a" by auto
  with c s' ne that show ?thesis by blast
qed

lemma elem_like_mono: "elem_like d s L v u \<Longrightarrow> elem_like d (s @ hs) L v u"
  by (auto simp: elem_like_def split: option.splits dest: reify_mono)

lemma clone_elems_copies:
  assumes ok: "copies copy d"
  shows "list_all2 (elem_ok d s0) es ts \<Longrightarrow> es = [] \<or> last es \<noteq> None \<Longrightarrow>
    \<exists>r hs1. clone_elems copy (s0 @ hs) es = Some (Inr (r, (s0 @ hs) @ hs1)) \<and> list_all2 elem_copied es r"
proof (induction es arbitrary: hs ts)
  case Nil
  show ?case by simp
next
  case (Cons e es)
  from Cons.prems(1) obtain u ts' where ts: "ts = u # ts'" "elem_ok d s0 e u" "list_all2 (elem_ok d s0) es ts'"
    by (auto simp: list_all2_Cons1)
  show ?case
  proof (cases e)
    case None
    with Cons.prems(2) have ne: "es \<noteq> []" and l: "es = [] \<or> last es \<noteq> None" by (auto split: if_splits)
    from Cons.IH [OF ts(3) l, of hs] obtain r hs1 where
      r: "clone_elems copy (s0 @ hs) es = Some (Inr (r, (s0 @ hs) @ hs1))" "list_all2 elem_copied es r"
      by blast
    from r(2) ne have "r \<noteq> []" by (auto simp: list_all2_conv_all_nth)
    moreover have "elem_copied None None" by (simp add: elem_copied_def)
    ultimately show ?thesis using r None by auto
  next
    case (Some x)
    with Cons.prems(2) have l: "es = [] \<or> last es \<noteq> None" by (auto split: if_splits)
    from ts(2) Some obtain t where t: "reify d s0 x = Some t" "cloneable t"
      by (auto simp: elem_ok_def)
    from copiesD [OF ok t, of hs] obtain v hs1 t' where
      c: "copy (s0 @ hs) x = Some (Inr (v, (s0 @ hs) @ hs1))"
         "(\<forall>a. x \<noteq> Ref a) \<longrightarrow> v = x" "(\<exists>a. x = Ref a) \<longrightarrow> v \<noteq> x" by metis
    from Cons.IH [OF ts(3) l, of "hs @ hs1"] obtain r hs2 where
      r: "clone_elems copy (s0 @ hs @ hs1) es = Some (Inr (r, (s0 @ hs @ hs1) @ hs2))"
         "list_all2 elem_copied es r" by blast
    have "clone_elems copy (s0 @ hs) (e # es) = Some (Inr (Some v # r, (s0 @ hs) @ (hs1 @ hs2)))"
      using c(1) r(1) Some by simp
    moreover have "elem_copied e (Some v)"
      using c(2,3) Some by (simp add: elem_copied_def)
    then have "list_all2 elem_copied (e # es) (Some v # r)"
      using r(2) by simp
    ultimately show ?thesis by blast
  qed
qed

lemma mixin_elems_copies:
  assumes ok: "copies copy d"
  shows "list_all2 (elem_ok d s0) es ts \<Longrightarrow> list_all2 elem_copied es dest \<Longrightarrow>
    \<exists>r hs1. mixin_elems copy (s0 @ hs) dest es = Some (Inr (r, (s0 @ hs) @ hs1))
      \<and> list_all2 (elem_like d ((s0 @ hs) @ hs1) (length s0)) r ts"
proof (induction es arbitrary: hs ts dest)
  case Nil
  then show ?case by simp
next
  case (Cons e es)
  from Cons.prems(1) obtain u ts' where ts: "ts = u # ts'" "elem_ok d s0 e u" "list_all2 (elem_ok d s0) es ts'"
    by (auto simp: list_all2_Cons1)
  from Cons.prems(2) obtain w dest' where dest: "dest = w # dest'" "elem_copied e w" "list_all2 elem_copied es dest'"
    by (auto simp: list_all2_Cons1)
  show ?case
  proof (cases e)
    case None
    with ts(2) dest(2) have u: "u = None" and w: "w = None" by (simp_all add: elem_ok_def elem_copied_def)
    from Cons.IH [OF ts(3) dest(3), of hs] obtain r hs1 where
      r: "mixin_elems copy (s0 @ hs) dest' es = Some (Inr (r, (s0 @ hs) @ hs1))"
         "list_all2 (elem_like d ((s0 @ hs) @ hs1) (length s0)) r ts'" by blast
    have "mixin_elems copy (s0 @ hs) dest (e # es) = Some (Inr (None # r, (s0 @ hs) @ hs1))"
      using r(1) None dest(1) w by simp
    moreover have "elem_like d ((s0 @ hs) @ hs1) (length s0) None u"
      using u by (simp add: elem_like_def)
    then have "list_all2 (elem_like d ((s0 @ hs) @ hs1) (length s0)) (None # r) ts"
      using r(2) ts(1) by simp
    ultimately show ?thesis by blast
  next
    case (Some x)
    from ts(2) Some obtain t where t: "u = Some t" "reify d s0 x = Some t" "cloneable t"
      by (auto simp: elem_ok_def)
    from dest(2) Some obtain y where y: "w = Some y" "(\<exists>a. x = Ref a) \<longrightarrow> y \<noteq> x" "(\<forall>a. x \<noteq> Ref a) \<longrightarrow> y = x"
      by (auto simp: elem_copied_def)
    show ?thesis
    proof (cases "\<exists>a. x = Ref a")
      case True
      with y have cond: "dest = [] \<or> hd dest = None \<or> hd dest \<noteq> Some x" using dest(1) by simp
      from copiesD [OF ok t(2,3), of hs] obtain v hs1 t' where
        c: "copy (s0 @ hs) x = Some (Inr (v, (s0 @ hs) @ hs1))"
           "reify d ((s0 @ hs) @ hs1) v = Some t'" "shape t' = shape t"
           "\<forall>a \<in> addrs t'. length s0 \<le> a" by metis
      from Cons.IH [OF ts(3) dest(3), of "hs @ hs1"] obtain r hs2 where
        r: "mixin_elems copy (s0 @ hs @ hs1) dest' es = Some (Inr (r, (s0 @ hs @ hs1) @ hs2))"
           "list_all2 (elem_like d ((s0 @ hs @ hs1) @ hs2) (length s0)) r ts'" by blast
      have "mixin_elems copy (s0 @ hs) dest (e # es) = Some (Inr (Some v # r, (s0 @ hs) @ (hs1 @ hs2)))"
        using c(1) r(1) Some cond dest(1) by simp
      moreover have "elem_like d ((s0 @ hs) @ (hs1 @ hs2)) (length s0) (Some v) u"
        using reify_mono [OF c(2), of hs2] c(3,4) t(1) by (simp add: elem_like_def)
      ultimately show ?thesis using r(2) ts(1) by auto
    next
      case False
      with y have yx: "y = x" by simp
      with dest(1) y(1) have cond: "\<not> (dest = [] \<or> hd dest = None \<or> hd dest \<noteq> Some x)" by simp
      from False t(2) have tl: "t = Leaf x" by (simp add: reify_prim)
      from Cons.IH [OF ts(3) dest(3), of hs] obtain r hs1 where
        r: "mixin_elems copy (s0 @ hs) dest' es = Some (Inr (r, (s0 @ hs) @ hs1))"
           "list_all2 (elem_like d ((s0 @ hs) @ hs1) (length s0)) r ts'" by blast
      have "mixin_elems copy (s0 @ hs) dest (e # es) = Some (Inr (Some x # r, (s0 @ hs) @ hs1))"
        using r(1) Some cond dest(1) y(1) yx by simp
      moreover have "elem_like d ((s0 @ hs) @ hs1) (length s0) (Some x) u"
        using False t(1) tl by (simp add: elem_like_def reify_prim)
      ultimately show ?thesis using r(2) ts(1) by auto
    qed
  qed
qed

lemma prop_like_mono: "prop_like d s L q kt \<Longrightarrow> prop_like d (s @ hs) L q kt"
  by (auto simp: prop_like_def dest: reify_mono)

lemma insert_index_last:
  "\<forall>k' \<in> set (map fst dest). is_index k' \<and> index_value k' < index_value k \<Longrightarrow>
   insert_index dest k v = dest @ [(k, v)]"
  by (induction dest k v rule: insert_index.induct) auto

lemma own_set_new:
  "\<not> own_has dest k \<Longrightarrow>
   \<forall>k' \<in> set (map fst dest). \<not> is_index k \<or> is_index k' \<and> index_value k' < index_value k \<Longrightarrow>
   own_set dest k v = dest @ [(k, v)]"
  using insert_index_last [of dest k v] by (auto simp: own_set_def)

lemma own_get_object_prototype:
  "own_get object_prototype name = (if name \<in> set prototype_members then VBuiltin name else VUndefined)"
  by (simp add: own_get_def object_prototype_def map_of_map_restrict restrict_map_def)

lemma own_has_object_prototype: "own_has object_prototype name = (name \<in> set prototype_members)"
  by (auto simp: own_has_def object_prototype_def)

lemma must_copy_new:
  "\<not> own_has dest name \<Longrightarrow> name \<noteq> ''__proto__'' \<Longrightarrow> x \<noteq> VBuiltin name \<Longrightarrow>
   must_copy object_prototype dest name x"
  by (simp add: must_copy_def has_prop_def differs_at_def own_get_object_prototype
      own_has_object_prototype) (simp add: own_has_def)

lemma own_has_append: "own_has (dest @ new) k = (own_has dest k \<or> own_has new k)"
  by (auto simp: own_has_def)

lemma mixin_props_copies:
  assumes ok: "copies copy d"
  shows "list_all2 (prop_ok d s0) rest kts \<Longrightarrow> distinct (map fst rest) \<Longrightarrow>
    \<forall>k \<in> set (map fst rest). \<not> own_has dest k \<Longrightarrow>
    key_order (map fst dest @ map fst rest) \<Longrightarrow> ''__proto__'' \<notin> set (map fst rest) \<Longrightarrow>
    \<forall>p \<in> set rest. snd p \<noteq> VBuiltin (fst p) \<Longrightarrow>
    \<exists>new hs1. mixin_props copy (s0 @ hs) object_prototype dest rest
        = Some (Inr (dest @ new, (s0 @ hs) @ hs1))
      \<and> list_all2 (prop_like d ((s0 @ hs) @ hs1) (length s0)) new kts"
proof (induction rest arbitrary: hs kts dest)
  case Nil
  then show ?case by simp
next
  case (Cons p rest)
  obtain name x where p: "p = (name, x)" by (cases p)
  from Cons.prems(1) obtain kt kts' where kts: "kts = kt # kts'" "prop_ok d s0 p kt"
    "list_all2 (prop_ok d s0) rest kts'"
    by (auto simp: list_all2_Cons1)
  from kts(2) p have t: "fst kt = name" "reify d s0 x = Some (snd kt)" "cloneable (snd kt)"
    by (simp_all add: prop_ok_def)
  from Cons.prems(3) p have nh: "\<not> own_has dest name" by simp
  from copiesD [OF ok t(2,3), of hs] obtain v hs1 t' where
    c: "copy (s0 @ hs) x = Some (Inr (v, (s0 @ hs) @ hs1))"
       "reify d ((s0 @ hs) @ hs1) v = Some t'" "shape t' = shape (snd kt)"
       "\<forall>a \<in> addrs t'. length s0 \<le> a" by metis
  from Cons.prems(2) have d: "distinct (map fst rest)" and nr: "name \<notin> set (map fst rest)"
    using p by simp_all
  have fresh: "\<forall>k \<in> set (map fst rest). \<not> own_has (dest @ [(name, v)]) k"
    using Cons.prems(3) nr by (auto simp: own_has_append own_has_def)
  from Cons.prems(4) p have ko: "key_order (map fst (dest @ [(name, v)]) @ map fst rest)" by simp
  from Cons.prems(4) p have first: "\<forall>k' \<in> set (map fst dest).
      \<not> is_index name \<or> is_index k' \<and> index_value k' < index_value name"
    by (auto simp: key_order_def sorted_wrt_append)
  from Cons.prems(5) p have np: "name \<noteq> ''__proto__''" and npr: "''__proto__'' \<notin> set (map fst rest)"
    by auto
  from Cons.prems(6) p have nb: "x \<noteq> VBuiltin name"
    and nbr: "\<forall>p \<in> set rest. snd p \<noteq> VBuiltin (fst p)" by auto
  have mc: "must_copy object_prototype dest name x" using nh np nb by (rule must_copy_new)
  have as: "assign_prop dest name v = dest @ [(name, v)]"
    using np own_set_new [OF nh first] by (simp add: assign_prop_def)
  from Cons.IH [OF kts(3) d fresh ko npr nbr, of "hs @ hs1"] obtain new hs2 where
    r: "mixin_props copy (s0 @ hs @ hs1) object_prototype (dest @ [(name, v)]) rest
          = Some (Inr ((dest @ [(name, v)]) @ new, (s0 @ hs @ hs1) @ hs2))"
       "list_all2 (prop_like d ((s0 @ hs @ hs1) @ hs2) (length s0)) new kts'" by blast
  have "mixin_props copy (s0 @ hs) object_prototype dest (p # rest)
          = Some (Inr (dest @ ((name, v) # new), (s0 @ hs) @ (hs1 @ hs2)))"
    using c(1) r(1) p mc as by simp
  moreover have "prop_like d ((s0 @ hs) @ (hs1 @ hs2)) (length s0) (name, v) kt"
    using reify_mono [OF c(2), of hs2] c(3,4) t(1) by (simp add: prop_like_def)
  then have "list_all2 (prop_like d ((s0 @ hs) @ (hs1 @ hs2)) (length s0)) ((name, v) # new) kts"
    using r(2) kts(1) by simp
  ultimately show ?case by blast
qed

text \<open>The unfolding of a new array and of a new record from their copied parts.\<close>

lemma reify_elems_like:
  "list_all2 (elem_like d s L) r ts \<Longrightarrow>
   \<exists>ts'. those (map (\<lambda>e. case e of None \<Rightarrow> Some None | Some v \<Rightarrow> map_option Some (reify d s v)) r) = Some ts'
     \<and> map (map_option shape) ts' = map (map_option shape) ts
     \<and> (\<forall>a \<in> \<Union> (set (map (\<lambda>x. \<Union> (set_option x)) (map (map_option addrs) ts'))). L \<le> a)"
proof (induction rule: list_all2_induct)
  case Nil
  show ?case by simp
next
  case (Cons v r u ts)
  then obtain ts' where ts': "those (map (\<lambda>e. case e of None \<Rightarrow> Some None | Some v \<Rightarrow> map_option Some (reify d s v)) r) = Some ts'"
     "map (map_option shape) ts' = map (map_option shape) ts"
     "\<forall>a \<in> \<Union> (set (map (\<lambda>x. \<Union> (set_option x)) (map (map_option addrs) ts'))). L \<le> a" by blast
  show ?case
  proof (cases u)
    case None
    with Cons(1) have "v = None" by (simp add: elem_like_def)
    with None ts' show ?thesis by (intro exI [of _ "None # ts'"]) simp
  next
    case (Some t)
    with Cons(1) obtain y t' where y: "v = Some y" "reify d s y = Some t'" "shape t' = shape t"
      "\<forall>a \<in> addrs t'. L \<le> a" by (auto simp: elem_like_def)
    with Some ts' show ?thesis by (intro exI [of _ "Some t' # ts'"]) auto
  qed
qed

lemma reify_props_like:
  "list_all2 (prop_like d s L) new kts \<Longrightarrow>
   \<exists>kts'. those (map (\<lambda>(k, v). map_option (Pair k) (reify d s v)) new) = Some kts'
     \<and> map (map_prod id shape) kts' = map (map_prod id shape) kts
     \<and> (\<forall>a \<in> \<Union> (set (map snd (map (map_prod id addrs) kts'))). L \<le> a)"
proof (induction rule: list_all2_induct)
  case Nil
  show ?case by simp
next
  case (Cons q new kt kts)
  then obtain kts' where kts': "those (map (\<lambda>(k, v). map_option (Pair k) (reify d s v)) new) = Some kts'"
     "map (map_prod id shape) kts' = map (map_prod id shape) kts"
     "\<forall>a \<in> \<Union> (set (map snd (map (map_prod id addrs) kts'))). L \<le> a" by blast
  obtain k v where q: "q = (k, v)" by (cases q)
  obtain k' t where kt: "kt = (k', t)" by (cases kt)
  from Cons(1) q kt obtain t' where t': "k = k'" "reify d s v = Some t'" "shape t' = shape t"
    "\<forall>a \<in> addrs t'. L \<le> a" by (auto simp: prop_like_def)
  have 1: "those (map (\<lambda>(k, v). map_option (Pair k) (reify d s v)) (q # new)) = Some ((k, t') # kts')"
    using q t'(2) kts'(1) by simp
  have 2: "map (map_prod id shape) ((k, t') # kts') = map (map_prod id shape) (kt # kts)"
    using kt t'(1,3) kts'(2) by simp
  have 3: "\<forall>a \<in> \<Union> (set (map snd (map (map_prod id addrs) ((k, t') # kts')))). L \<le> a"
    using t'(4) kts'(3) by auto
  from 1 2 3 show ?case by blast
qed

lemma reify_truthy: "reify d s v = Some t \<Longrightarrow> truthy_tree t = truthy_val v"
proof (cases v)
  case (Ref a)
  assume "reify d s v = Some t"
  with Ref have "\<And>x. t \<noteq> Leaf x" by (auto dest: reify_Ref_not_Leaf)
  with Ref show ?thesis by (cases t) (auto simp: truthy_tree_def)
qed (auto simp: truthy_tree_def)

lemma props_keys:
  "list_all2 (\<lambda>p kt. fst kt = fst p \<and> reify d s (snd p) = Some (snd kt)) ps kts \<Longrightarrow>
   map fst kts = map fst ps"
  by (induction rule: list_all2_induct) auto

lemma props_truthy:
  "list_all2 (\<lambda>p kt. fst kt = fst p \<and> reify d s (snd p) = Some (snd kt)) ps kts \<Longrightarrow>
   truthy_val (own_get ps k) = (case map_of kts k of None \<Rightarrow> False | Some t \<Rightarrow> truthy_tree t)"
proof (induction rule: list_all2_induct)
  case Nil
  show ?case by (simp add: own_get_def)
next
  case (Cons p ps kt kts)
  obtain k1 v where p: "p = (k1, v)" by (cases p)
  obtain k2 t where kt: "kt = (k2, t)" by (cases kt)
  from Cons(1) p kt have e: "k2 = k1" "reify d s v = Some t" by simp_all
  show ?case
  proof (cases "k1 = k")
    case True
    with p kt e reify_truthy [OF e(2)] show ?thesis by (simp add: own_get_def)
  next
    case False
    with p kt e Cons(3) show ?thesis by (simp add: own_get_def)
  qed
qed

lemma clone_object_copies:
  assumes ok: "copies copy d" and t: "reify (Suc d) s (Ref a) = Some t" and c: "cloneable t"
  shows "\<exists>r s' t'. clone_object h copy s a = Some (Inr (r, s')) \<and> (\<exists>hs. s' = s @ hs)
           \<and> reify (Suc d) s' r = Some t' \<and> shape t' = shape t
           \<and> (\<forall>b \<in> addrs t'. length s \<le> b)"
proof -
  note rc = reify_Ref_cases [OF t]
  then have a: "\<not> length s \<le> a" by simp
  show ?thesis
  proof (cases "s ! a")
    case (Date x)
    with rc have "t = DateT a x" by simp
    with a Date show ?thesis
      by (simp add: clone_object_def node_like_def)
  next
    case (RegExp x f)
    with rc have "t = RegExpT a x f" by simp
    with a RegExp show ?thesis
      by (simp add: clone_object_def node_like_def)
  next
    case (Array es)
    with rc obtain ts where ts: "t = ArrayT a ts"
      "list_all2 (\<lambda>e u. case e of None \<Rightarrow> u = None
                 | Some v \<Rightarrow> (\<exists>t'. u = Some t' \<and> reify d s v = Some t')) es ts"
      by auto
    from ts(2) have len: "length es = length ts" by (rule list_all2_lengthD)
    from c ts(1) have cl: "ts = [] \<or> last ts \<noteq> None"
      and cc: "\<forall>u \<in> set ts. case u of None \<Rightarrow> True | Some x \<Rightarrow> cloneable x"
      by (auto simp: list_all_iff split: option.splits)
    have eok: "list_all2 (elem_ok d s) es ts"
      unfolding list_all2_conv_all_nth
    proof (intro conjI allI impI)
      show "length es = length ts" by (rule len)
    next
      fix i assume i: "i < length es"
      with ts(2) have "case es ! i of None \<Rightarrow> ts ! i = None
                 | Some v \<Rightarrow> (\<exists>t'. ts ! i = Some t' \<and> reify d s v = Some t')"
        by (simp add: list_all2_conv_all_nth)
      moreover from i len have "ts ! i \<in> set ts" by simp
      with cc have "case ts ! i of None \<Rightarrow> True | Some x \<Rightarrow> cloneable x" by blast
      ultimately show "elem_ok d s (es ! i) (ts ! i)"
        by (auto simp: elem_ok_def split: option.splits)
    qed
    have lst: "es = [] \<or> last es \<noteq> None"
    proof (cases "es = []")
      case False
      with len have ne: "ts \<noteq> []" by auto
      with cl have "last ts \<noteq> None" by simp
      with ne have "ts ! (length ts - 1) \<noteq> None" by (simp add: last_conv_nth)
      moreover from False have "length es - 1 < length es" by simp
      from list_all2_nthD [OF ts(2) this]
      have "case es ! (length es - 1) of None \<Rightarrow> ts ! (length es - 1) = None
                 | Some v \<Rightarrow> (\<exists>t'. ts ! (length es - 1) = Some t' \<and> reify d s v = Some t')" .
      ultimately have "es ! (length es - 1) \<noteq> None" using len by (auto split: option.splits)
      with False show ?thesis by (simp add: last_conv_nth)
    qed simp
    from clone_elems_copies [OF ok eok lst, of "[]"] obtain r hs1 where
      r: "clone_elems copy s es = Some (Inr (r, s @ hs1))" "list_all2 elem_copied es r" by auto
    from mixin_elems_copies [OF ok eok r(2), of hs1] obtain r' hs2 where
      r': "mixin_elems copy (s @ hs1) r es = Some (Inr (r', (s @ hs1) @ hs2))"
          "list_all2 (elem_like d ((s @ hs1) @ hs2) (length s)) r' ts" by blast
    define s2 where "s2 = (s @ hs1) @ hs2"
    let ?s2 = s2
    let ?s' = "s2 @ [Array r']"
    note r' = r' [folded s2_def]
    have ext: "\<exists>hs. ?s' = s @ hs" "length s \<le> length s2" by (simp_all add: s2_def)
    from r'(2) have "list_all2 (elem_like d ?s' (length s)) r' ts"
      by (rule list_all2_mono) (rule elem_like_mono)
    from reify_elems_like [OF this] obtain ts' where ts':
      "those (map (\<lambda>e. case e of None \<Rightarrow> Some None | Some v \<Rightarrow> map_option Some (reify d ?s' v)) r') = Some ts'"
      "map (map_option shape) ts' = map (map_option shape) ts"
      "\<forall>b \<in> \<Union> (set (map (\<lambda>x. \<Union> (set_option x)) (map (map_option addrs) ts'))). length s \<le> b"
      by blast
    have 1: "clone_object h copy s a = Some (Inr (Ref (length ?s2), ?s'))"
      using a Array r(1) r'(1) by (simp add: clone_object_def node_like_def)
    have 2: "reify (Suc d) ?s' (Ref (length ?s2)) = Some (ArrayT (length ?s2) ts')"
      using ts'(1) by (simp add: nth_append)
    have 3: "shape (ArrayT (length ?s2) ts') = shape t" using ts'(2) ts(1) by simp
    have 4: "\<forall>b \<in> addrs (ArrayT (length ?s2) ts'). length s \<le> b" using ts'(3) ext(2) by auto
    have 5: "\<exists>hs. ?s' = s @ hs" by (rule ext)
    from 1 2 3 4 5 show ?thesis by blast
  next
    case (Plain ps)
    with rc obtain kts where kts: "t = PlainT a kts"
      "list_all2 (\<lambda>p kt. fst kt = fst p \<and> reify d s (snd p) = Some (snd kt)) ps kts"
      by auto
    from c kts(1) have pr: "plain_record kts" and cc: "\<forall>kt \<in> set kts. cloneable (snd kt)"
      by (auto simp: list_all_iff)
    note keys = props_keys [OF kts(2)]
    note tr = props_truthy [OF kts(2)]
    from pr have pr1: "distinct (map fst kts)"
      and pr2: "\<not> ((case map_of kts ''nodeType'' of None \<Rightarrow> False | Some t \<Rightarrow> truthy_tree t)
            \<and> ''cloneNode'' \<in> set (map fst kts))"
      and pr3: "\<not> (case map_of kts ''constructor'' of None \<Rightarrow> False | Some t \<Rightarrow> truthy_tree t)"
      and pr4: "key_order (map fst kts)"
      and pr5: "''__proto__'' \<notin> set (map fst kts)"
      and pr6: "list_all (\<lambda>kt. snd kt \<noteq> Leaf (VBuiltin (fst kt))) kts"
      unfolding plain_record_def by blast+
    from pr2 have nl: "\<not> node_like (Plain ps)"
      unfolding node_like_def hobj.case tr keys own_has_def .
    from pr3 have "\<not> truthy_val (own_get ps ''constructor'')" unfolding tr .
    then have nw: "new_like h ps = Inr ([], object_prototype)"
      unfolding new_like_def by (simp add: own_get_def own_has_def map_of_eq_None_iff [symmetric]
          del: map_of_eq_None_iff split: option.splits)
    from pr1 have dist: "distinct (map fst ps)" unfolding keys .
    have pok: "list_all2 (prop_ok d s) ps kts"
      unfolding list_all2_conv_all_nth
    proof (intro conjI allI impI)
      show "length ps = length kts" using kts(2) by (rule list_all2_lengthD)
    next
      fix i assume i: "i < length ps"
      with kts(2) have "fst (kts ! i) = fst (ps ! i) \<and> reify d s (snd (ps ! i)) = Some (snd (kts ! i))"
        by (simp add: list_all2_conv_all_nth)
      moreover from i kts(2) have "kts ! i \<in> set kts"
        by (simp add: list_all2_lengthD)
      with cc have "cloneable (snd (kts ! i))" by blast
      ultimately show "prop_ok d s (ps ! i) (kts ! i)" by (simp add: prop_ok_def)
    qed
    have ko: "key_order (map fst [] @ map fst ps)" using pr4 unfolding keys by simp
    have npr: "''__proto__'' \<notin> set (map fst ps)" using pr5 unfolding keys .
    have nbi: "\<forall>p \<in> set ps. snd p \<noteq> VBuiltin (fst p)"
    proof
      fix p assume "p \<in> set ps"
      then obtain i where i: "i < length ps" "ps ! i = p" by (auto simp: in_set_conv_nth)
      with kts(2) have e: "fst (kts ! i) = fst p" "reify d s (snd p) = Some (snd (kts ! i))"
        by (auto simp: list_all2_conv_all_nth)
      from i kts(2) have "kts ! i \<in> set kts" by (simp add: list_all2_lengthD)
      with pr6 have "snd (kts ! i) \<noteq> Leaf (VBuiltin (fst (kts ! i)))" by (simp add: list_all_iff)
      with e show "snd p \<noteq> VBuiltin (fst p)" by (auto simp: reify_prim)
    qed
    have "\<forall>k \<in> set (map fst ps). \<not> own_has [] k" by (simp add: own_has_def)
    from mixin_props_copies [OF ok pok dist this ko npr nbi, of "[]"] obtain new hs1 where
      n: "mixin_props copy s object_prototype [] ps = Some (Inr (new, s @ hs1))"
         "list_all2 (prop_like d (s @ hs1) (length s)) new kts" by auto
    define s1 where "s1 = s @ hs1"
    let ?s1 = s1
    let ?s' = "s1 @ [Plain new]"
    note n = n [folded s1_def]
    have ext: "\<exists>hs. ?s' = s @ hs" "length s \<le> length s1" by (simp_all add: s1_def)
    from n(2) have "list_all2 (prop_like d ?s' (length s)) new kts"
      by (rule list_all2_mono) (rule prop_like_mono)
    from reify_props_like [OF this] obtain kts' where kts':
      "those (map (\<lambda>(k, v). map_option (Pair k) (reify d ?s' v)) new) = Some kts'"
      "map (map_prod id shape) kts' = map (map_prod id shape) kts"
      "\<forall>b \<in> \<Union> (set (map snd (map (map_prod id addrs) kts'))). length s \<le> b"
      by blast
    have 1: "clone_object h copy s a = Some (Inr (Ref (length ?s1), ?s'))"
      using a Plain nl nw n(1) by (simp add: clone_object_def)
    have 2: "reify (Suc d) ?s' (Ref (length ?s1)) = Some (PlainT (length ?s1) kts')"
      using kts'(1) by (simp add: nth_append)
    have 3: "shape (PlainT (length ?s1) kts') = shape t" using kts'(2) kts(1) by simp
    have 4: "\<forall>b \<in> addrs (PlainT (length ?s1) kts'). length s \<le> b" using kts'(3) ext(2) by auto
    have 5: "\<exists>hs. ?s' = s @ hs" by (rule ext)
    from 1 2 3 4 5 show ?thesis by blast
  qed
qed

lemma clone_copies: "copies (clone h (Suc d)) d"
proof (induction d)
  case 0
  show ?case unfolding copies_def
  proof (intro allI impI, elim conjE)
    fix s v t assume t: "reify 0 s v = Some t"
    then have p: "\<And>a. v \<noteq> Ref a" by auto
    with t have tl: "t = Leaf v" by (simp add: reify_prim)
    have cl: "clone h (Suc 0) s v = Some (Inr (v, s))" using p by (rule clone_Suc_prim)
    have rf: "reify 0 s v = Some (Leaf v)" using p by (rule reify_prim)
    show "\<exists>r s' t'. clone h (Suc 0) s v = Some (Inr (r, s')) \<and> (\<exists>hs. s' = s @ hs)
           \<and> reify 0 s' r = Some t' \<and> shape t' = shape t
           \<and> (\<forall>a \<in> addrs t'. length s \<le> a)
           \<and> ((\<forall>a. v \<noteq> Ref a) \<longrightarrow> r = v \<and> s' = s)"
      unfolding cl using rf tl by (intro exI [of _ v] exI [of _ s] exI [of _ "Leaf v"]) simp
  qed
next
  case (Suc d)
  show ?case unfolding copies_def
  proof (intro allI impI, elim conjE)
    fix s v t assume t: "reify (Suc d) s v = Some t" and c: "cloneable t"
    show "\<exists>r s' t'. clone h (Suc (Suc d)) s v = Some (Inr (r, s')) \<and> (\<exists>hs. s' = s @ hs)
           \<and> reify (Suc d) s' r = Some t' \<and> shape t' = shape t
           \<and> (\<forall>a \<in> addrs t'. length s \<le> a)
           \<and> ((\<forall>a. v \<noteq> Ref a) \<longrightarrow> r = v \<and> s' = s)"
    proof (cases "\<exists>a. v = Ref a")
      case True
      then obtain a where v: "v = Ref a" by blast
      with t have "reify (Suc d) s (Ref a) = Some t" by simp
      from clone_object_copies [OF Suc this c, of h] show ?thesis
        unfolding v clone_Suc_Ref by blast
    next
      case False
      then have p: "\<And>a. v \<noteq> Ref a" by blast
      with t have tl: "t = Leaf v" by (simp add: reify_prim)
      have cl: "clone h (Suc (Suc d)) s v = Some (Inr (v, s))" using p by (rule clone_Suc_prim)
      have rf: "reify (Suc d) s v = Some (Leaf v)" using p by (rule reify_prim)
      show ?thesis
        unfolding cl using rf tl by (intro exI [of _ v] exI [of _ s] exI [of _ "Leaf v"]) simp
    qed
  qed
qed

lemma clone_node_like:
  assumes "a < length s" "s ! a = Plain ps" "truthy_val (own_get ps ''nodeType'')"
    "own_has ps ''cloneNode''"
  shows "clone h (Suc n) s (Ref a) =
     (case own_get ps ''cloneNode'' of
        VFn f \<Rightarrow>
          (case cloneNode h f (Plain ps) of
             Inl e \<Rightarrow> Some (Inl e)
           | Inr node \<Rightarrow> Some (Inr (Ref (length s), s @ [node])))
      | _ \<Rightarrow> Some (Inl TypeError))"
  using assms by (simp add: clone_object_def node_like_def split: val.splits)

text \<open>
  Claim C4, as the code has it.

  \<^item> \<^verbatim>\<open>null\<close>, \<^verbatim>\<open>undefined\<close>, a primitive and a function are returned as they are, with no
    object made.
  \<^item> A record with a truthy \<^verbatim>\<open>nodeType\<close> and a key \<^verbatim>\<open>cloneNode\<close> is taken for a DOM node,
    whatever else it has: when \<^verbatim>\<open>cloneNode\<close> is a function of the program, \<^verbatim>\<open>clone\<close> returns
    the object that it answers, or throws what it throws; when \<^verbatim>\<open>cloneNode\<close> is no function,
    \<^verbatim>\<open>clone\<close> throws a TypeError. No property is copied.
  \<^item> Let the value have a finite unfolding \<open>t\<close> that is \<open>cloneable\<close>: no array ends in a
    hole, and every record has its keys once and in the order of \<^verbatim>\<open>Object.keys\<close>, does not
    pass the test for a DOM node, and has no truthy own \<^verbatim>\<open>constructor\<close>, no own key
    \<^verbatim>\<open>__proto__\<close> and no member of \<^verbatim>\<open>Object.prototype\<close> under that member's name. Then
    \<^verbatim>\<open>clone\<close> returns; the store it leaves extends the store it got, so no object of the
    input is touched; the value returned unfolds to a tree of the shape of \<open>t\<close> (the same
    time value in a \<^verbatim>\<open>Date\<close>, the same source and flags in a \<^verbatim>\<open>RegExp\<close>, holes and copies of
    the elements in an array, copies of the properties under the same keys in a record);
    and every object of that tree is new, so the result shares no object with the input.
\<close>

theorem clone_copies_structure:
  "((\<forall>a. v \<noteq> Ref a) \<longrightarrow> clone h (Suc n) s v = Some (Inr (v, s)))
   \<and> (a < length s \<and> s ! a = Plain ps \<and> truthy_val (own_get ps ''nodeType'')
        \<and> own_has ps ''cloneNode'' \<longrightarrow>
      (\<forall>f. own_get ps ''cloneNode'' = VFn f \<longrightarrow>
         clone h (Suc n) s (Ref a) =
           (case cloneNode h f (Plain ps) of
              Inl e \<Rightarrow> Some (Inl e)
            | Inr node \<Rightarrow> Some (Inr (Ref (length s), s @ [node]))))
      \<and> ((\<forall>f. own_get ps ''cloneNode'' \<noteq> VFn f) \<and> (\<forall>m. own_get ps ''cloneNode'' \<noteq> VBuiltin m) \<longrightarrow>
         clone h (Suc n) s (Ref a) = Some (Inl TypeError)))
   \<and> (reify d s v = Some t \<and> cloneable t \<longrightarrow>
      (\<exists>r s' t'. clone h (Suc d) s v = Some (Inr (r, s'))
           \<and> (\<exists>hs. s' = s @ hs)
           \<and> reify d s' r = Some t' \<and> shape t' = shape t
           \<and> (\<forall>a \<in> addrs t'. length s \<le> a)))"
proof -
  have prim: "clone h (Suc n) s v = Some (Inr (v, s))" if "\<forall>a. v \<noteq> Ref a"
    using that by (intro clone_Suc_prim) simp
  have node: "clone h (Suc n) s (Ref a) =
           (case cloneNode h f (Plain ps) of
              Inl e \<Rightarrow> Some (Inl e)
            | Inr node \<Rightarrow> Some (Inr (Ref (length s), s @ [node])))"
    if "a < length s \<and> s ! a = Plain ps \<and> truthy_val (own_get ps ''nodeType'')
        \<and> own_has ps ''cloneNode''" "own_get ps ''cloneNode'' = VFn f" for f
    using that clone_node_like [of a s ps h n] by simp
  have no_function: "clone h (Suc n) s (Ref a) = Some (Inl TypeError)"
    if "a < length s \<and> s ! a = Plain ps \<and> truthy_val (own_get ps ''nodeType'')
        \<and> own_has ps ''cloneNode''"
       "(\<forall>f. own_get ps ''cloneNode'' \<noteq> VFn f) \<and> (\<forall>m. own_get ps ''cloneNode'' \<noteq> VBuiltin m)"
    using that clone_node_like [of a s ps h n] by (cases "own_get ps ''cloneNode''") simp_all
  have copy: "\<exists>r s' t'. clone h (Suc d) s v = Some (Inr (r, s'))
           \<and> (\<exists>hs. s' = s @ hs)
           \<and> reify d s' r = Some t' \<and> shape t' = shape t
           \<and> (\<forall>a \<in> addrs t'. length s \<le> a)"
    if "reify d s v = Some t \<and> cloneable t"
    using clone_copies [of h d] that unfolding copies_def by blast
  from prim node no_function copy show ?thesis by blast
qed

theorem clone_copies_structure_witness:
  "cloneable (PlainT 0 [(''a'', Leaf (VNum 1)), (''d'', DateT 1 5),
       (''xs'', ArrayT 2 [Some (RegExpT 3 ''a+'' ''g''), None, Some (Leaf (VStr ''s''))])])
   \<and> (\<exists>r s' t'. clone dom0 (Suc 3) store1 (Ref 0) = Some (Inr (r, s'))
           \<and> (\<exists>hs. s' = store1 @ hs)
           \<and> reify 3 s' r = Some t'
           \<and> shape t' = shape (PlainT 0 [(''a'', Leaf (VNum 1)), (''d'', DateT 1 5),
                 (''xs'', ArrayT 2 [Some (RegExpT 3 ''a+'' ''g''), None, Some (Leaf (VStr ''s''))])])
           \<and> (\<forall>a \<in> addrs t'. length store1 \<le> a))
   \<and> clone dom0 (Suc 3) store1 (Ref 0) =
       Some (Inr (Ref 8, store1 @ [Date 5, RegExp ''a+'' ''g'', RegExp ''a+'' ''g'',
         Array [Some (Ref 6), None, Some (VStr ''s'')],
         Plain [(''a'', VNum 1), (''d'', Ref 4), (''xs'', Ref 7)]]))
   \<and> clone dom0 (Suc 3) store1 (VStr ''x'') = Some (Inr (VStr ''x'', store1))
   \<and> clone dom0 (Suc 3) [Plain [(''nodeType'', VNum 9), (''cloneNode'', VFn 2)]] (Ref 0)
       = Some (Inr (Ref 1, [Plain [(''nodeType'', VNum 9), (''cloneNode'', VFn 2)],
                            Plain [(''nodeType'', VNum 9), (''cloneNode'', VFn 2)]]))"
proof -
  have r: "reify 3 store1 (Ref 0) =
     Some (PlainT 0 [(''a'', Leaf (VNum 1)), (''d'', DateT 1 5),
       (''xs'', ArrayT 2 [Some (RegExpT 3 ''a+'' ''g''), None, Some (Leaf (VStr ''s''))])])"
    by code_simp
  have c: "cloneable (PlainT 0 [(''a'', Leaf (VNum 1)), (''d'', DateT 1 5),
       (''xs'', ArrayT 2 [Some (RegExpT 3 ''a+'' ''g''), None, Some (Leaf (VStr ''s''))])])"
    by code_simp
  have e: "clone dom0 (Suc 3) store1 (Ref 0) =
       Some (Inr (Ref 8, store1 @ [Date 5, RegExp ''a+'' ''g'', RegExp ''a+'' ''g'',
         Array [Some (Ref 6), None, Some (VStr ''s'')],
         Plain [(''a'', VNum 1), (''d'', Ref 4), (''xs'', Ref 7)]]))"
    by code_simp
  have n: "0 < length [Plain [(''nodeType'', VNum 9), (''cloneNode'', VFn 2)]]"
    "[Plain [(''nodeType'', VNum 9), (''cloneNode'', VFn 2)]] ! 0
       = Plain [(''nodeType'', VNum 9), (''cloneNode'', VFn 2)]"
    "truthy_val (own_get [(''nodeType'', VNum 9), (''cloneNode'', VFn 2)] ''nodeType'')"
    "own_has [(''nodeType'', VNum 9), (''cloneNode'', VFn 2)] ''cloneNode''"
    "own_get [(''nodeType'', VNum 9), (''cloneNode'', VFn 2)] ''cloneNode'' = VFn 2"
    "cloneNode dom0 2 (Plain [(''nodeType'', VNum 9), (''cloneNode'', VFn 2)])
       = Inr (Plain [(''nodeType'', VNum 9), (''cloneNode'', VFn 2)])"
    by (simp_all add: own_get_def own_has_def dom0_def)
  have p: "\<forall>a. VStr ''x'' \<noteq> Ref a" by simp
  from clone_copies_structure [where v = "Ref 0" and s = store1 and h = dom0 and d = 3
      and t = "PlainT 0 [(''a'', Leaf (VNum 1)), (''d'', DateT 1 5),
       (''xs'', ArrayT 2 [Some (RegExpT 3 ''a+'' ''g''), None, Some (Leaf (VStr ''s''))])]"]
    r c
  have 1: "\<exists>r s' t'. clone dom0 (Suc 3) store1 (Ref 0) = Some (Inr (r, s'))
           \<and> (\<exists>hs. s' = store1 @ hs)
           \<and> reify 3 s' r = Some t'
           \<and> shape t' = shape (PlainT 0 [(''a'', Leaf (VNum 1)), (''d'', DateT 1 5),
                 (''xs'', ArrayT 2 [Some (RegExpT 3 ''a+'' ''g''), None, Some (Leaf (VStr ''s''))])])
           \<and> (\<forall>a \<in> addrs t'. length store1 \<le> a)"
    by blast
  from clone_copies_structure [where v = "VStr ''x''" and s = store1 and h = dom0 and n = 3] p
  have 2: "clone dom0 (Suc 3) store1 (VStr ''x'') = Some (Inr (VStr ''x'', store1))" by blast
  from clone_copies_structure [where s = "[Plain [(''nodeType'', VNum 9), (''cloneNode'', VFn 2)]]"
      and a = 0 and ps = "[(''nodeType'', VNum 9), (''cloneNode'', VFn 2)]" and h = dom0 and n = 3] n(1-5)
  have "clone dom0 (Suc 3) [Plain [(''nodeType'', VNum 9), (''cloneNode'', VFn 2)]] (Ref 0) =
      (case cloneNode dom0 2 (Plain [(''nodeType'', VNum 9), (''cloneNode'', VFn 2)]) of
         Inl e \<Rightarrow> Some (Inl e)
       | Inr node \<Rightarrow> Some (Inr (Ref (length [Plain [(''nodeType'', VNum 9), (''cloneNode'', VFn 2)]]),
           [Plain [(''nodeType'', VNum 9), (''cloneNode'', VFn 2)]] @ [node])))"
    by blast
  then have 3: "clone dom0 (Suc 3) [Plain [(''nodeType'', VNum 9), (''cloneNode'', VFn 2)]] (Ref 0)
       = Some (Inr (Ref 1, [Plain [(''nodeType'', VNum 9), (''cloneNode'', VFn 2)],
                            Plain [(''nodeType'', VNum 9), (''cloneNode'', VFn 2)]]))"
    unfolding n(6) by simp
  from c 1 e 2 3 show ?thesis by blast
qed

text \<open>
  Claim C4, as the specification has it, fails on a record with a truthy \<^verbatim>\<open>nodeType\<close>
  and a key \<^verbatim>\<open>cloneNode\<close>: it is taken for a DOM node, and \<^verbatim>\<open>clone\<close> returns what its
  \<^verbatim>\<open>cloneNode\<close> answers, or throws a TypeError when that is no function; its properties
  are not copied one by one.
\<close>

theorem clone_node_like_counterexample:
  "clone dom0 2 [Plain [(''nodeType'', VNum 1), (''cloneNode'', VNum 0), (''data'', VStr ''x'')]] (Ref 0)
     = Some (Inl TypeError)
   \<and> clone dom1 2 [Plain [(''nodeType'', VNum 1), (''cloneNode'', VFn 7), (''data'', VStr ''x'')]] (Ref 0)
     = Some (Inr (Ref 1, [Plain [(''nodeType'', VNum 1), (''cloneNode'', VFn 7), (''data'', VStr ''x'')],
                          Plain [(''nodeType'', VNum 1)]]))"
  by code_simp

text \<open>
  Outside the cloneable values the copy is not structurally equal to its source. A record
  with an own \<^verbatim>\<open>constructor\<close> \<open>f\<close> is made by \<^verbatim>\<open>new f()\<close>, and \<^verbatim>\<open>mixin\<close> does not copy the
  property \<^verbatim>\<open>constructor\<close>, which the new object inherits with the same value. An own key
  \<^verbatim>\<open>__proto__\<close> and a member of \<^verbatim>\<open>Object.prototype\<close> under its own name are not copied
  either, and an array that ends in a hole gets shorter.
\<close>

lemma clone_outside_cloneable:
  "clone dom0 2 [Plain [(''constructor'', VFn 3), (''a'', VNum 1)]] (Ref 0)
     = Some (Inr (Ref 1, [Plain [(''constructor'', VFn 3), (''a'', VNum 1)], Plain [(''a'', VNum 1)]]))
   \<and> clone dom0 2 [Plain [(''__proto__'', VNum 5), (''toString'', VBuiltin ''toString''), (''a'', VNum 1)]] (Ref 0)
     = Some (Inr (Ref 1, [Plain [(''__proto__'', VNum 5), (''toString'', VBuiltin ''toString''), (''a'', VNum 1)],
                          Plain [(''a'', VNum 1)]]))
   \<and> clone dom0 2 [Array [Some (VNum 1), None]] (Ref 0)
     = Some (Inr (Ref 1, [Array [Some (VNum 1), None], Array [Some (VNum 1)]]))"
  by code_simp

end
